theory Spec2Isabelle
  imports Main "HOL-Library.Char_ord" "HOL-Library.List_Lexorder"
begin

text \<open>
  Planora keeps habits with their streaks and calendar events in a Convex document store
  and plans a day in a chat. The theory embeds the mutations of \<^verbatim>\<open>habits.ts\<close>, the two
  mutations of \<^verbatim>\<open>events.ts\<close> that the chat and the calendar write through, and the two
  handlers of the planning page, and states and proves what the specification says about
  them: the streak recompute, the upsert of a log, the cascade of a deletion, the frame of
  an update, and the path from a model reply to stored events.
\<close>

section \<open>Calendar dates as the streak walk uses them\<close>

text \<open>
  \<^verbatim>\<open>updateStreak\<close> holds the day being checked in a JavaScript \<^verbatim>\<open>Date\<close>:
  \<^verbatim>\<open>new Date(today)\<close> of a date-only ISO string is midnight UTC of that day, the only
  operation applied to it is \<^verbatim>\<open>setDate(getDate() - 1)\<close>, and it is only read through
  \<^verbatim>\<open>toISOString().split('T')[0]\<close>. Convex runs its functions in UTC, so the local
  calendar fields \<^verbatim>\<open>getDate\<close>/\<^verbatim>\<open>setDate\<close> work on are the UTC ones. Such a value
  is a calendar day: year, month (1 to 12) and day of the month.
\<close>

datatype jsdate = UTCDate (year: int) (month: nat) (day: nat)

definition isLeap :: "int \<Rightarrow> bool" where
  "isLeap y = (y mod 4 = 0 \<and> (y mod 100 \<noteq> 0 \<or> y mod 400 = 0))"

definition daysInMonth :: "int \<Rightarrow> nat \<Rightarrow> nat" where
  "daysInMonth y m =
     (if m = 2 then (if isLeap y then 29 else 28)
      else if m = 4 \<or> m = 6 \<or> m = 9 \<or> m = 11 then 30 else 31)"

definition validDate :: "jsdate \<Rightarrow> bool" where
  "validDate c = (1 \<le> month c \<and> month c \<le> 12 \<and> 1 \<le> day c \<and> day c \<le> daysInMonth (year c) (month c))"

text \<open>\<^verbatim>\<open>checkDate.setDate(checkDate.getDate() - 1)\<close>: day 0 of a month is the last day of the
  month before, month 0 of a year is December of the year before.\<close>

fun setDatePrev :: "jsdate \<Rightarrow> jsdate" where
  "setDatePrev (UTCDate y m d) =
     (if 1 < d then UTCDate y m (d - 1)
      else if 1 < m then UTCDate y (m - 1) (daysInMonth y (m - 1))
      else UTCDate (y - 1) 12 31)"

definition digit :: "nat \<Rightarrow> char" where
  "digit n = ''0123456789'' ! (n mod 10)"

fun pad :: "nat \<Rightarrow> nat \<Rightarrow> string" where
  "pad 0 n = []"
| "pad (Suc w) n = pad w (n div 10) @ [digit n]"

text \<open>\<^verbatim>\<open>toISOString\<close> writes years 0 to 9999 with four digits and every other year with
  a sign and six digits.\<close>

definition isoYear :: "int \<Rightarrow> string" where
  "isoYear y =
     (if 0 \<le> y \<and> y \<le> 9999 then pad 4 (nat y)
      else (if y < 0 then CHR ''-'' else CHR ''+'') # pad 6 (nat \<bar>y\<bar>))"

text \<open>\<^verbatim>\<open>d.toISOString().split('T')[0]\<close>\<close>

fun toISODate :: "jsdate \<Rightarrow> string" where
  "toISODate (UTCDate y m d) = isoYear y @ ''-'' @ pad 2 m @ ''-'' @ pad 2 d"

text \<open>
  \<^verbatim>\<open>a.localeCompare(b)\<close> as negative, zero or positive, on the strings the date field
  is meant to hold: calendar days as \<^verbatim>\<open>YYYY-MM-DD\<close>, ten characters with the hyphens at
  fixed positions. On those the collation decides by the first digit that differs, as the
  order of the bytes does, and the model is that order. On other strings the collation is
  a different order (it puts an underscore before a hyphen, for one) and the model does not
  follow it; where a claim about the program depends on the order of the logs, its theorem
  is stated for logs whose dates are calendar days.
\<close>

definition localeCompare :: "string \<Rightarrow> string \<Rightarrow> int" where
  "localeCompare a b = (if a < b then - 1 else if a = b then 0 else 1)"

text \<open>\<^verbatim>\<open>Array.prototype.sort(cmp)\<close> is stable: an element goes behind those it does not
  precede, so equal elements keep their order.\<close>

fun insertBy :: "('a \<Rightarrow> 'a \<Rightarrow> int) \<Rightarrow> 'a \<Rightarrow> 'a list \<Rightarrow> 'a list" where
  "insertBy cmp x [] = [x]"
| "insertBy cmp x (y # ys) = (if cmp x y \<le> 0 then x # y # ys else y # insertBy cmp x ys)"

definition sortBy :: "('a \<Rightarrow> 'a \<Rightarrow> int) \<Rightarrow> 'a list \<Rightarrow> 'a list" where
  "sortBy cmp xs = foldr (insertBy cmp) xs []"

section \<open>The document store\<close>

type_synonym id = nat

datatype frequency = Daily | Weekdays | Weekends | Weekly | Custom

datatype timeOfDay = Morning | Afternoon | Evening | Flexible

text \<open>Table \<^verbatim>\<open>habits\<close> of the schema. \<^verbatim>\<open>v.number()\<close> fields that no function computes
  with are integers here; the streaks are counted up from 0.\<close>

record habit =
  habit_id :: id
  habit_userId :: id
  name :: string
  habit_description :: "string option"
  frequency :: frequency
  customDays :: "int list option"
  preferredTime :: "timeOfDay option"
  durationMinutes :: int
  currentStreak :: nat
  bestStreak :: nat
  isActive :: bool
  color :: "string option"
  habit_createdAt :: nat

text \<open>Table \<^verbatim>\<open>habitLogs\<close>.\<close>

record habitLog =
  log_id :: id
  habitId :: id
  log_userId :: id
  log_date :: string
  log_completed :: bool
  log_notes :: "string option"
  log_createdAt :: nat

datatype category = Work | Meal | Sleep | Habit | Planning | Personal | Other

datatype provenance = AI | User

text \<open>Table \<^verbatim>\<open>calendarEvents\<close>.\<close>

record calendarEvent =
  event_id :: id
  event_userId :: id
  title :: string
  event_description :: "string option"
  startTime :: string
  endTime :: string
  event_date :: string
  category :: category
  isRecurring :: bool
  recurringPattern :: "string option"
  createdBy :: provenance
  event_completed :: "bool option"
  event_createdAt :: nat

text \<open>The store: each table in insertion order, and the counter the fresh document ids
  come from.\<close>

record db =
  habits :: "habit list"
  habitLogs :: "habitLog list"
  calendarEvents :: "calendarEvent list"
  nextId :: id

definition emptyDb :: db where
  "emptyDb = \<lparr>habits = [], habitLogs = [], calendarEvents = [], nextId = 0\<rparr>"

text \<open>What a Convex function can throw in the code modelled here. A mutation is a
  transaction: when it throws, none of its writes is kept, so a mutation is a function
  from the store to an error or the new store.\<close>

datatype error = NotUnique | DocumentNotFound | ArgumentValidationError

definition commit :: "db \<Rightarrow> error + db \<Rightarrow> db" where
  "commit d r = (case r of Inl e \<Rightarrow> d | Inr d' \<Rightarrow> d')"

text \<open>\<^verbatim>\<open>.unique()\<close>: null for no document, the document for one, an exception for more.\<close>

definition unique :: "'a list \<Rightarrow> error + 'a option" where
  "unique xs = (case xs of [] \<Rightarrow> Inr None | [x] \<Rightarrow> Inr (Some x) | _ \<Rightarrow> Inl NotUnique)"

section \<open>habits.ts\<close>

record createHabitArgs =
  ch_userId :: id
  ch_name :: string
  ch_description :: "string option"
  ch_frequency :: frequency
  ch_customDays :: "int list option"
  ch_preferredTime :: "timeOfDay option"
  ch_durationMinutes :: int
  ch_color :: "string option"

definition createHabit :: "nat \<Rightarrow> createHabitArgs \<Rightarrow> db \<Rightarrow> error + db" where
  "createHabit now args d =
     Inr (d\<lparr>habits := habits d @
              [\<lparr>habit_id = nextId d, habit_userId = ch_userId args, name = ch_name args,
                habit_description = ch_description args, frequency = ch_frequency args,
                customDays = ch_customDays args, preferredTime = ch_preferredTime args,
                durationMinutes = ch_durationMinutes args,
                currentStreak = 0, bestStreak = 0, isActive = True,
                color = ch_color args, habit_createdAt = now\<rparr>],
            nextId := Suc (nextId d)\<rparr>)"

record updateHabitArgs =
  uh_habitId :: id
  uh_name :: "string option"
  uh_description :: "string option"
  uh_frequency :: "frequency option"
  uh_customDays :: "int list option"
  uh_preferredTime :: "timeOfDay option"
  uh_durationMinutes :: "int option"
  uh_color :: "string option"
  uh_isActive :: "bool option"

text \<open>\<^verbatim>\<open>cleanUpdates\<close> holds the entries of the arguments that are not undefined; the patch
  writes exactly those.\<close>

definition patchHabit :: "updateHabitArgs \<Rightarrow> habit \<Rightarrow> habit" where
  "patchHabit u h =
     h\<lparr>name := (case uh_name u of None \<Rightarrow> name h | Some v \<Rightarrow> v),
       habit_description := (case uh_description u of None \<Rightarrow> habit_description h | Some v \<Rightarrow> Some v),
       frequency := (case uh_frequency u of None \<Rightarrow> frequency h | Some v \<Rightarrow> v),
       customDays := (case uh_customDays u of None \<Rightarrow> customDays h | Some v \<Rightarrow> Some v),
       preferredTime := (case uh_preferredTime u of None \<Rightarrow> preferredTime h | Some v \<Rightarrow> Some v),
       durationMinutes := (case uh_durationMinutes u of None \<Rightarrow> durationMinutes h | Some v \<Rightarrow> v),
       color := (case uh_color u of None \<Rightarrow> color h | Some v \<Rightarrow> Some v),
       isActive := (case uh_isActive u of None \<Rightarrow> isActive h | Some v \<Rightarrow> v)\<rparr>"

text \<open>\<^verbatim>\<open>ctx.db.patch\<close> and \<^verbatim>\<open>ctx.db.delete\<close> throw when the document does not exist.\<close>

definition updateHabit :: "updateHabitArgs \<Rightarrow> db \<Rightarrow> error + db" where
  "updateHabit u d =
     (if \<exists>h \<in> set (habits d). habit_id h = uh_habitId u
      then Inr (d\<lparr>habits := map (\<lambda>h. if habit_id h = uh_habitId u then patchHabit u h else h) (habits d)\<rparr>)
      else Inl DocumentNotFound)"

text \<open>The first half of \<^verbatim>\<open>deleteHabit\<close>: the logs of the habit are collected through the
  index and deleted one by one, each by its id.\<close>

definition deleteLogs :: "id \<Rightarrow> db \<Rightarrow> db" where
  "deleteLogs hid d =
     (let logs = filter (\<lambda>l. habitId l = hid) (habitLogs d)
      in foldl (\<lambda>s lg. s\<lparr>habitLogs := filter (\<lambda>l. log_id l \<noteq> log_id lg) (habitLogs s)\<rparr>) d logs)"

definition deleteHabit :: "id \<Rightarrow> db \<Rightarrow> error + db" where
  "deleteHabit hid d =
     (let d1 = deleteLogs hid d
      in if \<exists>h \<in> set (habits d1). habit_id h = hid
         then Inr (d1\<lparr>habits := filter (\<lambda>h. habit_id h \<noteq> hid) (habits d1)\<rparr>)
         else Inl DocumentNotFound)"

text \<open>The loop of \<^verbatim>\<open>updateStreak\<close>. It leaves through the end of the list or through one
  of its two \<^verbatim>\<open>break\<close>s; the result says which.\<close>

datatype loopExit = LoopEnd | NotCompleted | MissingDay

fun streakLoop :: "jsdate \<Rightarrow> habitLog list \<Rightarrow> nat \<Rightarrow> nat \<times> loopExit" where
  "streakLoop checkDate [] n = (n, LoopEnd)"
| "streakLoop checkDate (lg # logs) n =
     (if log_date lg = toISODate checkDate \<and> log_completed lg
        then streakLoop (setDatePrev checkDate) logs (n + 1)
      else if log_date lg = toISODate checkDate \<and> \<not> log_completed lg
        then (n, NotCompleted)
      else (n, MissingDay))"

definition sortedLogs :: "id \<Rightarrow> db \<Rightarrow> habitLog list" where
  "sortedLogs hid d =
     sortBy (\<lambda>a b. localeCompare (log_date b) (log_date a))
       (filter (\<lambda>l. habitId l = hid) (habitLogs d))"

text \<open>\<^verbatim>\<open>today\<close> is the clock's current UTC day.\<close>

definition updateStreak :: "jsdate \<Rightarrow> id \<Rightarrow> db \<Rightarrow> db" where
  "updateStreak today hid d =
     (case find (\<lambda>h. habit_id h = hid) (habits d) of
        None \<Rightarrow> d
      | Some hb \<Rightarrow>
          (let logs = sortedLogs hid d;
               cur = fst (streakLoop today logs 0);
               best = max (bestStreak hb) cur
           in d\<lparr>habits := map (\<lambda>h. if habit_id h = hid
                                   then h\<lparr>currentStreak := cur, bestStreak := best\<rparr> else h)
                               (habits d)\<rparr>))"

record logArgs =
  la_habitId :: id
  la_userId :: id
  la_date :: string
  la_completed :: bool
  la_notes :: "string option"

text \<open>The first half of \<^verbatim>\<open>logHabitCompletion\<close>: the lookup of the log of that habit and date
  and the write, a patch of the log found or an insert. A patch with \<^verbatim>\<open>notes\<close> undefined
  removes the field.\<close>

definition upsertLog :: "nat \<Rightarrow> logArgs \<Rightarrow> db \<Rightarrow> error + db" where
  "upsertLog now a d =
     (case unique (filter (\<lambda>l. habitId l = la_habitId a \<and> log_date l = la_date a) (habitLogs d)) of
        Inl e \<Rightarrow> Inl e
      | Inr (Some existingLog) \<Rightarrow>
          Inr (d\<lparr>habitLogs := map (\<lambda>l. if log_id l = log_id existingLog
                                        then l\<lparr>log_completed := la_completed a, log_notes := la_notes a\<rparr>
                                        else l) (habitLogs d)\<rparr>)
      | Inr None \<Rightarrow>
          Inr (d\<lparr>habitLogs := habitLogs d @
                   [\<lparr>log_id = nextId d, habitId = la_habitId a, log_userId = la_userId a,
                     log_date = la_date a, log_completed = la_completed a, log_notes = la_notes a,
                     log_createdAt = now\<rparr>],
                 nextId := Suc (nextId d)\<rparr>))"

text \<open>\<^verbatim>\<open>logHabitCompletion\<close>: the write, then the recompute.\<close>

definition logHabitCompletion :: "nat \<Rightarrow> jsdate \<Rightarrow> logArgs \<Rightarrow> db \<Rightarrow> error + db" where
  "logHabitCompletion now today a d =
     (case upsertLog now a d of
        Inl e \<Rightarrow> Inl e
      | Inr d1 \<Rightarrow> Inr (updateStreak today (la_habitId a) d1))"

text \<open>The mutations of habits.ts as calls, each with the clock readings it uses:
  \<^verbatim>\<open>Date.now()\<close> and, for the streak, the current day. A call that throws leaves the store
  as it was.\<close>

datatype mutation =
    CreateHabit nat createHabitArgs
  | UpdateHabit updateHabitArgs
  | DeleteHabit id
  | LogHabitCompletion nat jsdate logArgs

fun applyMutation :: "mutation \<Rightarrow> db \<Rightarrow> error + db" where
  "applyMutation (CreateHabit now args) d = createHabit now args d"
| "applyMutation (UpdateHabit u) d = updateHabit u d"
| "applyMutation (DeleteHabit hid) d = deleteHabit hid d"
| "applyMutation (LogHabitCompletion now today a) d = logHabitCompletion now today a d"

definition step :: "mutation \<Rightarrow> db \<Rightarrow> db" where
  "step m d = commit d (applyMutation m d)"

fun run :: "mutation list \<Rightarrow> db \<Rightarrow> db" where
  "run [] d = d"
| "run (m # ms) d = run ms (step m d)"

section \<open>events.ts\<close>

text \<open>An element of the \<^verbatim>\<open>events\<close> argument of \<^verbatim>\<open>createManyEvents\<close> as the client sends
  it. The planning page passes the category through \<^verbatim>\<open>as any\<close>, so it arrives as an
  arbitrary string and the argument validator decides on it.\<close>

record eventArg =
  ea_title :: string
  ea_description :: "string option"
  ea_startTime :: string
  ea_endTime :: string
  ea_date :: string
  ea_category :: string
  ea_isRecurring :: bool
  ea_createdBy :: provenance

text \<open>The validator \<^verbatim>\<open>v.union(v.literal("work"), ..., v.literal("other"))\<close>.\<close>

definition categoryOf :: "string \<Rightarrow> category option" where
  "categoryOf s =
     (if s = ''work'' then Some Work
      else if s = ''meal'' then Some Meal
      else if s = ''sleep'' then Some Sleep
      else if s = ''habit'' then Some Habit
      else if s = ''planning'' then Some Planning
      else if s = ''personal'' then Some Personal
      else if s = ''other'' then Some Other
      else None)"

definition insertEvent :: "nat \<Rightarrow> id \<Rightarrow> eventArg \<times> category \<Rightarrow> db \<Rightarrow> id \<times> db" where
  "insertEvent now uid ec d =
     (let e = fst ec in
      (nextId d,
       d\<lparr>calendarEvents := calendarEvents d @
            [\<lparr>event_id = nextId d, event_userId = uid, title = ea_title e,
              event_description = ea_description e, startTime = ea_startTime e,
              endTime = ea_endTime e, event_date = ea_date e,
              category = snd ec,
              isRecurring = ea_isRecurring e, recurringPattern = None,
              createdBy = ea_createdBy e, event_completed = Some False,
              event_createdAt = now\<rparr>],
          nextId := Suc (nextId d)\<rparr>))"

text \<open>\<^verbatim>\<open>Promise.all(args.events.map(...))\<close>: the inserts are issued in the order of the
  array.\<close>

fun insertEvents :: "nat \<Rightarrow> id \<Rightarrow> (eventArg \<times> category) list \<Rightarrow> db \<Rightarrow> id list \<times> db" where
  "insertEvents now uid [] d = ([], d)"
| "insertEvents now uid (e # es) d =
     (let r1 = insertEvent now uid e d;
          r2 = insertEvents now uid es (snd r1)
      in (fst r1 # fst r2, snd r2))"

text \<open>The arguments are validated before the handler runs: every category has to be a
  literal of the union, or the call is rejected as a whole.\<close>

fun validateEvents :: "eventArg list \<Rightarrow> (eventArg \<times> category) list option" where
  "validateEvents [] = Some []"
| "validateEvents (e # es) =
     (case categoryOf (ea_category e) of
        None \<Rightarrow> None
      | Some c \<Rightarrow> (case validateEvents es of None \<Rightarrow> None | Some r \<Rightarrow> Some ((e, c) # r)))"

definition createManyEvents :: "nat \<Rightarrow> id \<Rightarrow> eventArg list \<Rightarrow> db \<Rightarrow> error + id list \<times> db" where
  "createManyEvents now uid events d =
     (case validateEvents events of
        None \<Rightarrow> Inl ArgumentValidationError
      | Some typed \<Rightarrow> Inr (insertEvents now uid typed d))"

record updateEventArgs =
  ue_eventId :: id
  ue_title :: "string option"
  ue_description :: "string option"
  ue_startTime :: "string option"
  ue_endTime :: "string option"
  ue_category :: "category option"
  ue_completed :: "bool option"

definition patchEvent :: "updateEventArgs \<Rightarrow> calendarEvent \<Rightarrow> calendarEvent" where
  "patchEvent u e =
     e\<lparr>title := (case ue_title u of None \<Rightarrow> title e | Some v \<Rightarrow> v),
       event_description := (case ue_description u of None \<Rightarrow> event_description e | Some v \<Rightarrow> Some v),
       startTime := (case ue_startTime u of None \<Rightarrow> startTime e | Some v \<Rightarrow> v),
       endTime := (case ue_endTime u of None \<Rightarrow> endTime e | Some v \<Rightarrow> v),
       category := (case ue_category u of None \<Rightarrow> category e | Some v \<Rightarrow> v),
       event_completed := (case ue_completed u of None \<Rightarrow> event_completed e | Some v \<Rightarrow> Some v)\<rparr>"

definition updateEvent :: "updateEventArgs \<Rightarrow> db \<Rightarrow> error + db" where
  "updateEvent u d =
     (if \<exists>e \<in> set (calendarEvents d). event_id e = ue_eventId u
      then Inr (d\<lparr>calendarEvents :=
                    map (\<lambda>e. if event_id e = ue_eventId u then patchEvent u e else e) (calendarEvents d)\<rparr>)
      else Inl DocumentNotFound)"

section \<open>The planning page, plan/page.tsx\<close>

datatype role = UserRole | Assistant

record message =
  role :: role
  content :: string

text \<open>Interface \<^verbatim>\<open>ParsedEvent\<close>: a valid proposed event, an object whose title, start time
  and end time are strings and whose description is absent or a string. The category is
  optional here because \<^verbatim>\<open>handleConfirmSchedule\<close> guards it with \<^verbatim>\<open>||\<close>. The page does not
  check what \<^verbatim>\<open>JSON.parse\<close> gave against the interface; an element outside it, one without
  a title or with a null description, say, is not a value of this type, and what is proved
  about a confirmation is proved for the elements that are.\<close>

record parsedEvent =
  pe_title :: string
  pe_startTime :: string
  pe_endTime :: string
  pe_category :: "string option"
  pe_description :: "string option"

text \<open>The state of the component. \<^verbatim>\<open>handleSubmit\<close> stores the elements of the parsed
  array as they are; \<^verbatim>\<open>handleConfirmSchedule\<close> reads them through the interface. The
  type of the elements is therefore a parameter of the state.\<close>

record 'e page =
  messages :: "message list"
  input :: string
  isLoading :: bool
  parsedSchedule :: "'e list option"
  scheduleConfirmed :: bool
  convexUserId :: "id option"

text \<open>
  Strings are their UTF-8 bytes. White space is what \<^verbatim>\<open>trim\<close> and the class \<^verbatim>\<open>\s\<close> take as
  such: the characters U+0009 to U+000D and U+0020 of one byte, U+00A0 of two bytes, and
  U+1680, U+2000 to U+200A, U+2028, U+2029, U+202F, U+205F, U+3000 and U+FEFF of three.
\<close>

definition isSpace1 :: "char \<Rightarrow> bool" where
  "isSpace1 a = (of_char a \<in> {9, 10, 11, 12, 13, 32 :: nat})"

definition isSpace2 :: "char \<Rightarrow> char \<Rightarrow> bool" where
  "isSpace2 a b = (of_char a = (0xC2 :: nat) \<and> of_char b = (0xA0 :: nat))"

definition isSpace3 :: "char \<Rightarrow> char \<Rightarrow> char \<Rightarrow> bool" where
  "isSpace3 a b c =
     (let x = (of_char a :: nat); y = (of_char b :: nat); z = (of_char c :: nat)
      in x = 0xE1 \<and> y = 0x9A \<and> z = 0x80
       \<or> x = 0xE2 \<and> y = 0x80 \<and> (0x80 \<le> z \<and> z \<le> 0x8A \<or> z = 0xA8 \<or> z = 0xA9 \<or> z = 0xAF)
       \<or> x = 0xE2 \<and> y = 0x81 \<and> z = 0x9F
       \<or> x = 0xE3 \<and> y = 0x80 \<and> z = 0x80
       \<or> x = 0xEF \<and> y = 0xBB \<and> z = 0xBF)"

text \<open>\<^verbatim>\<open>\s*\<close> at the start of a string, and \<^verbatim>\<open>trimStart\<close>: what is left behind the white
  space.\<close>

fun dropSpaces :: "string \<Rightarrow> string" where
  "dropSpaces (a # b # c # s) =
     (if isSpace1 a then dropSpaces (b # c # s)
      else if isSpace2 a b then dropSpaces (c # s)
      else if isSpace3 a b c then dropSpaces s
      else a # b # c # s)"
| "dropSpaces [a, b] =
     (if isSpace1 a then dropSpaces [b] else if isSpace2 a b then [] else [a, b])"
| "dropSpaces [a] = (if isSpace1 a then [] else [a])"
| "dropSpaces [] = []"

text \<open>\<^verbatim>\<open>trimEnd\<close>: the text up to where only white space follows.\<close>

fun trimEnd :: "string \<Rightarrow> string" where
  "trimEnd [] = []"
| "trimEnd (a # s) = (if dropSpaces (a # s) = [] then [] else a # trimEnd s)"

definition trim :: "string \<Rightarrow> string" where
  "trim s = trimEnd (dropSpaces s)"

definition fenceOpen :: string where
  "fenceOpen = [CHR 0x60, CHR 0x60, CHR 0x60, CHR ''j'', CHR ''s'', CHR ''o'', CHR ''n'']"

definition fenceClose :: string where
  "fenceClose = [CHR 0x60, CHR 0x60, CHR 0x60]"

text \<open>The text behind the first opening fence.\<close>

fun afterFence :: "string \<Rightarrow> string option" where
  "afterFence [] = None"
| "afterFence (c # cs) =
     (if take 7 (c # cs) = fenceOpen then Some (drop 7 (c # cs)) else afterFence cs)"

text \<open>Whether white space and then the closing fence start here.\<close>

definition closesHere :: "string \<Rightarrow> bool" where
  "closesHere s = (take 3 (dropSpaces s) = fenceClose)"

text \<open>The lazy group: the shortest text after which the fence closes.\<close>

fun lazyBody :: "string \<Rightarrow> string option" where
  "lazyBody [] = None"
| "lazyBody (c # cs) =
     (if closesHere (c # cs) then Some []
      else (case lazyBody cs of None \<Rightarrow> None | Some b \<Rightarrow> Some (c # b)))"

text \<open>Group 1 of \<^verbatim>\<open>assistantMessage.match(/```json\s*([\s\S]*?)\s*```/)\<close>, or None when
  there is no match. The match starts at the first opening fence: any closing fence behind
  a later one is behind the first one too.\<close>

definition jsonMatch :: "string \<Rightarrow> string option" where
  "jsonMatch s = (case afterFence s of None \<Rightarrow> None | Some r \<Rightarrow> lazyBody (dropSpaces r))"

text \<open>What \<^verbatim>\<open>JSON.parse\<close> returns. A number stands as its literal; nothing computes with
  it. An object lists each key once.\<close>

datatype json = JNull | JBool bool | JNum string | JStr string | JArr "json list"
  | JObj "(string \<times> json) list"

text \<open>\<^verbatim>\<open>parsed.events && Array.isArray(parsed.events)\<close>: the array to propose, if there is
  one. On null the property access throws inside the inner \<^verbatim>\<open>try\<close>, on any other value
  without such a property it is undefined; nothing is set in either case.\<close>

definition proposedEvents :: "json \<Rightarrow> json list option" where
  "proposedEvents parsed =
     (case parsed of
        JObj kvs \<Rightarrow> (case map_of kvs ''events'' of Some (JArr evs) \<Rightarrow> Some evs | _ \<Rightarrow> None)
      | _ \<Rightarrow> None)"

text \<open>The outcome of the call to \<^verbatim>\<open>/api/chat\<close>: \<^verbatim>\<open>fetch\<close> or a read of the stream threw,
  the status was not ok, or the body was read to its end in these chunks.\<close>

datatype response = FetchFailed | NotOk | Streamed "string list"

definition chatErrorText :: string where
  "chatErrorText = ''Sorry, I encountered an error. Please try again.''"

text \<open>\<^verbatim>\<open>handleSubmit\<close>, from the submit to the end of its \<^verbatim>\<open>finally\<close>. \<^verbatim>\<open>JSON.parse\<close> is a
  parameter: None where it throws. The handler calls no mutation, so the store goes
  through unchanged.\<close>

definition handleSubmit ::
  "(string \<Rightarrow> json option) \<Rightarrow> response \<Rightarrow> json page \<times> db \<Rightarrow> json page \<times> db" where
  "handleSubmit JSON_parse resp s =
     (let p = fst s; d = snd s in
      if trim (input p) = [] \<or> isLoading p then (p, d)
      else
        (let newMessages = messages p @ [\<lparr>role = UserRole, content = trim (input p)\<rparr>]
         in case resp of
              Streamed chunks \<Rightarrow>
                (let assistantMessage = concat chunks;
                     p1 = p\<lparr>messages := newMessages @ [\<lparr>role = Assistant, content = assistantMessage\<rparr>],
                            input := [], isLoading := False\<rparr>
                 in case jsonMatch assistantMessage of
                      None \<Rightarrow> (p1, d)
                    | Some body \<Rightarrow>
                        (case JSON_parse body of
                           None \<Rightarrow> (p1, d)
                         | Some parsed \<Rightarrow>
                             (case proposedEvents parsed of
                                None \<Rightarrow> (p1, d)
                              | Some evs \<Rightarrow> (p1\<lparr>parsedSchedule := Some evs\<rparr>, d))))
            | _ \<Rightarrow>
                (p\<lparr>messages := newMessages @ [\<lparr>role = Assistant, content = chatErrorText\<rparr>],
                   input := [], isLoading := False\<rparr>, d)))"

text \<open>The confirmation message, with the bytes the literal has in the source file before
  and behind its text.\<close>

definition savedText :: "string \<Rightarrow> string" where
  "savedText tomorrowFormatted =
     [CHR 0xC3, CHR 0xA2, CHR 0xC5, CHR 0x93, CHR 0xE2, CHR 0x80, CHR 0xA6] @
     '' **Your schedule for '' @ tomorrowFormatted @
     '' is saved!**'' @ [CHR 0x0A, CHR 0x0A] @
     ''You can view it in your calendar. Have a productive day tomorrow! '' @
     [CHR 0xC3, CHR 0xB0, CHR 0xC5, CHR 0xB8, CHR 0xC5, CHR 0xA1, CHR 0xE2, CHR 0x82, CHR 0xAC]"

definition saveErrorText :: string where
  "saveErrorText = ''Sorry, I had trouble saving your schedule. Please try again.''"

definition eventToCreate :: "string \<Rightarrow> parsedEvent \<Rightarrow> eventArg" where
  "eventToCreate tomorrowDate event =
     \<lparr>ea_title = pe_title event,
      ea_description = pe_description event,
      ea_startTime = tomorrowDate @ ''T'' @ pe_startTime event @ '':00'',
      ea_endTime = tomorrowDate @ ''T'' @ pe_endTime event @ '':00'',
      ea_date = tomorrowDate,
      ea_category = (case pe_category event of None \<Rightarrow> ''other''
                     | Some c \<Rightarrow> if c = [] then ''other'' else c),
      ea_isRecurring = False,
      ea_createdBy = AI\<rparr>"

text \<open>\<^verbatim>\<open>handleConfirmSchedule\<close>, with the mutation it awaits.\<close>

definition handleConfirmSchedule ::
  "string \<Rightarrow> string \<Rightarrow> nat \<Rightarrow> parsedEvent page \<times> db \<Rightarrow> parsedEvent page \<times> db" where
  "handleConfirmSchedule tomorrowDate tomorrowFormatted now s =
     (let p = fst s; d = snd s in
      case parsedSchedule p of
        None \<Rightarrow> (p, d)
      | Some sched \<Rightarrow>
          (case convexUserId p of
             None \<Rightarrow> (p, d)
           | Some uid \<Rightarrow>
               (let eventsToCreate = map (eventToCreate tomorrowDate) sched
                in case createManyEvents now uid eventsToCreate d of
                     Inr r \<Rightarrow>
                       (p\<lparr>messages := messages p @
                                        [\<lparr>role = Assistant, content = savedText tomorrowFormatted\<rparr>],
                           isLoading := False, scheduleConfirmed := True\<rparr>, snd r)
                   | Inl e \<Rightarrow>
                       (p\<lparr>messages := messages p @ [\<lparr>role = Assistant, content = saveErrorText\<rparr>],
                          isLoading := False\<rparr>, d))))"

section \<open>What the specification states, as predicates\<close>

subsection \<open>Streaks\<close>

text \<open>A day counts for the run when exactly one of the logs carries its date and that log
  is completed.\<close>

definition completedOn :: "habitLog list \<Rightarrow> string \<Rightarrow> bool" where
  "completedOn logs s =
     (case filter (\<lambda>l. log_date l = s) logs of [l] \<Rightarrow> log_completed l | _ \<Rightarrow> False)"

text \<open>The length of the unbroken run of such days that ends at day \<open>c\<close>, walking back one
  calendar day at a time. A run has at most one day per log, so the first argument, which
  bounds the walk, is the number of logs.\<close>

fun unbrokenRun :: "nat \<Rightarrow> habitLog list \<Rightarrow> jsdate \<Rightarrow> nat" where
  "unbrokenRun 0 logs c = 0"
| "unbrokenRun (Suc k) logs c =
     (if completedOn logs (toISODate c) then Suc (unbrokenRun k logs (setDatePrev c)) else 0)"

definition streakSpec :: "habitLog list \<Rightarrow> jsdate \<Rightarrow> nat" where
  "streakSpec logs today = unbrokenRun (length logs) logs today"

text \<open>Days the four-digit form of \<^verbatim>\<open>toISOString\<close> writes, their order, and the strings
  that are such a day.\<close>

definition inRange :: "jsdate \<Rightarrow> bool" where
  "inRange c = (validDate c \<and> 0 \<le> year c \<and> year c \<le> 9999)"

definition before :: "jsdate \<Rightarrow> jsdate \<Rightarrow> bool" where
  "before c c' =
     (year c < year c' \<or>
      year c = year c' \<and> (month c < month c' \<or> month c = month c' \<and> day c < day c'))"

definition calendarDay :: "string \<Rightarrow> bool" where
  "calendarDay s = (\<exists>c. inRange c \<and> s = toISODate c)"

definition streakInv :: "db \<Rightarrow> bool" where
  "streakInv d = (\<forall>h \<in> set (habits d). currentStreak h \<le> bestStreak h)"

text \<open>Document ids are unique and come from the counter.\<close>

definition distinctIds :: "db \<Rightarrow> bool" where
  "distinctIds d =
     (distinct (map habit_id (habits d)) \<and> (\<forall>h \<in> set (habits d). habit_id h < nextId d))"

text \<open>Every habit of the later store that the earlier store could hold is in the earlier
  store, with a best streak that is not larger.\<close>

definition bestKept :: "db \<Rightarrow> db \<Rightarrow> bool" where
  "bestKept d d' =
     (nextId d \<le> nextId d' \<and>
      (\<forall>h' \<in> set (habits d'). habit_id h' < nextId d \<longrightarrow>
         (\<exists>h \<in> set (habits d). habit_id h = habit_id h' \<and> bestStreak h \<le> bestStreak h')))"

definition stepOk :: "db \<Rightarrow> db \<Rightarrow> bool" where
  "stepOk d d' =
     ((streakInv d \<longrightarrow> streakInv d') \<and> (distinctIds d \<longrightarrow> distinctIds d' \<and> bestKept d d'))"

subsection \<open>Logs\<close>

definition logsFor :: "id \<Rightarrow> string \<Rightarrow> db \<Rightarrow> habitLog list" where
  "logsFor hid dt d = filter (\<lambda>l. habitId l = hid \<and> log_date l = dt) (habitLogs d)"

text \<open>No two logs share a habit and a date.\<close>

definition uniqueLogs :: "db \<Rightarrow> bool" where
  "uniqueLogs d = (\<forall>l \<in> set (habitLogs d). length (logsFor (habitId l) (log_date l) d) \<le> 1)"

subsection \<open>Updates\<close>

text \<open>What an update of a habit leaves alone: the fields it has no argument for, and every
  field whose argument is omitted.\<close>

definition habitFrame :: "updateHabitArgs \<Rightarrow> habit \<Rightarrow> habit \<Rightarrow> bool" where
  "habitFrame u h h' =
     (habit_id h' = habit_id h \<and> currentStreak h' = currentStreak h \<and> bestStreak h' = bestStreak h
      \<and> habit_userId h' = habit_userId h \<and> habit_createdAt h' = habit_createdAt h
      \<and> (uh_name u = None \<longrightarrow> name h' = name h)
      \<and> (uh_description u = None \<longrightarrow> habit_description h' = habit_description h)
      \<and> (uh_frequency u = None \<longrightarrow> frequency h' = frequency h)
      \<and> (uh_customDays u = None \<longrightarrow> customDays h' = customDays h)
      \<and> (uh_preferredTime u = None \<longrightarrow> preferredTime h' = preferredTime h)
      \<and> (uh_durationMinutes u = None \<longrightarrow> durationMinutes h' = durationMinutes h)
      \<and> (uh_color u = None \<longrightarrow> color h' = color h)
      \<and> (uh_isActive u = None \<longrightarrow> isActive h' = isActive h))"

definition eventFrame :: "updateEventArgs \<Rightarrow> calendarEvent \<Rightarrow> calendarEvent \<Rightarrow> bool" where
  "eventFrame u e e' =
     (event_id e' = event_id e \<and> event_date e' = event_date e \<and> event_userId e' = event_userId e
      \<and> createdBy e' = createdBy e \<and> event_createdAt e' = event_createdAt e
      \<and> isRecurring e' = isRecurring e \<and> recurringPattern e' = recurringPattern e
      \<and> (ue_title u = None \<longrightarrow> title e' = title e)
      \<and> (ue_description u = None \<longrightarrow> event_description e' = event_description e)
      \<and> (ue_startTime u = None \<longrightarrow> startTime e' = startTime e)
      \<and> (ue_endTime u = None \<longrightarrow> endTime e' = endTime e)
      \<and> (ue_category u = None \<longrightarrow> category e' = category e)
      \<and> (ue_completed u = None \<longrightarrow> event_completed e' = event_completed e))"

subsection \<open>The planning page\<close>

text \<open>The parsed value has a property \<^verbatim>\<open>events\<close> that is an array.\<close>

definition hasEventsArray :: "json \<Rightarrow> bool" where
  "hasEventsArray v =
     (case v of
        JObj kvs \<Rightarrow> (case map_of kvs ''events'' of Some (JArr evs) \<Rightarrow> True | _ \<Rightarrow> False)
      | _ \<Rightarrow> False)"

text \<open>The category of a proposed event is absent, empty or one of the seven literals.\<close>

definition knownCategory :: "parsedEvent \<Rightarrow> bool" where
  "knownCategory ev =
     (case pe_category ev of None \<Rightarrow> True | Some c \<Rightarrow> c = [] \<or> categoryOf c \<noteq> None)"

text \<open>The stored event a proposed event is expanded to on the planning date.\<close>

definition confirmedFrom :: "string \<Rightarrow> parsedEvent \<Rightarrow> calendarEvent \<Rightarrow> bool" where
  "confirmedFrom tomorrowDate ev e =
     (event_date e = tomorrowDate
      \<and> startTime e = tomorrowDate @ ''T'' @ pe_startTime ev @ '':00''
      \<and> endTime e = tomorrowDate @ ''T'' @ pe_endTime ev @ '':00''
      \<and> createdBy e = AI \<and> isRecurring e = False
      \<and> title e = pe_title ev \<and> event_description e = pe_description ev
      \<and> (case pe_category ev of
            None \<Rightarrow> category e = Other
          | Some c \<Rightarrow> if c = [] then category e = Other else categoryOf c = Some (category e)))"

definition insertedFrom :: "nat \<Rightarrow> id \<Rightarrow> eventArg \<times> category \<Rightarrow> calendarEvent \<Rightarrow> bool" where
  "insertedFrom now uid ec e =
     (event_userId e = uid \<and> title e = ea_title (fst ec)
      \<and> event_description e = ea_description (fst ec)
      \<and> startTime e = ea_startTime (fst ec) \<and> endTime e = ea_endTime (fst ec)
      \<and> event_date e = ea_date (fst ec) \<and> category e = snd ec
      \<and> isRecurring e = ea_isRecurring (fst ec) \<and> recurringPattern e = None
      \<and> createdBy e = ea_createdBy (fst ec) \<and> event_completed e = Some False
      \<and> event_createdAt e = now)"

section \<open>Example data\<close>

text \<open>A habit with one user, logged on 3 January 2024 (scenario 1 of the specification cut
  to one day), and the plan of scenario 4.\<close>

definition gym :: createHabitArgs where
  "gym = \<lparr>ch_userId = 1, ch_name = ''Gym'', ch_description = None, ch_frequency = Daily,
          ch_customDays = None, ch_preferredTime = None, ch_durationMinutes = 30,
          ch_color = None\<rparr>"

definition logOn :: "string \<Rightarrow> bool \<Rightarrow> logArgs" where
  "logOn s c = \<lparr>la_habitId = 0, la_userId = 1, la_date = s, la_completed = c, la_notes = None\<rparr>"

definition jan3 :: jsdate where
  "jan3 = UTCDate 2024 1 3"

definition gymLog :: "id \<Rightarrow> string \<Rightarrow> bool \<Rightarrow> nat \<Rightarrow> habitLog" where
  "gymLog i s c t =
     \<lparr>log_id = i, habitId = 0, log_userId = 1, log_date = s, log_completed = c,
      log_notes = None, log_createdAt = t\<rparr>"

definition gymHabit :: "nat \<Rightarrow> nat \<Rightarrow> habit" where
  "gymHabit c b =
     \<lparr>habit_id = 0, habit_userId = 1, name = ''Gym'', habit_description = None,
      frequency = Daily, customDays = None, preferredTime = None, durationMinutes = 30,
      currentStreak = c, bestStreak = b, isActive = True, color = None, habit_createdAt = 100\<rparr>"

definition gymDb :: db where
  "gymDb = run [CreateHabit 100 gym, LogHabitCompletion 200 jan3 (logOn ''2024-01-03'' True)] emptyDb"

text \<open>The same habit after a second call on 3 January (UTC) that logs 4 January, the date
  of a client whose local day is already the next one.\<close>

definition futureDb :: db where
  "futureDb = step (LogHabitCompletion 300 jan3 (logOn ''2024-01-04'' True)) gymDb"

definition plannedEvent :: "string \<Rightarrow> string \<Rightarrow> string \<Rightarrow> string option \<Rightarrow> parsedEvent" where
  "plannedEvent t s e c =
     \<lparr>pe_title = t, pe_startTime = s, pe_endTime = e, pe_category = c, pe_description = None\<rparr>"

definition planPage :: "parsedEvent list \<Rightarrow> parsedEvent page" where
  "planPage sched =
     \<lparr>messages = [], input = [], isLoading = False, parsedSchedule = Some sched,
      scheduleConfirmed = False, convexUserId = Some 1\<rparr>"

definition plan :: "parsedEvent list" where
  "plan = [plannedEvent ''Meditate'' ''07:00'' ''07:30'' (Some ''habit''),
           plannedEvent ''Standup+work'' ''09:00'' ''17:00'' None]"

text \<open>The store after the plan is confirmed for 2 June 2024.\<close>

definition planDb :: db where
  "planDb = snd (handleConfirmSchedule ''2024-06-02'' ''Sunday, June 2'' 9 (planPage plan, emptyDb))"

definition tickFirst :: updateEventArgs where
  "tickFirst = \<lparr>ue_eventId = 0, ue_title = None, ue_description = None, ue_startTime = None,
                ue_endTime = Some ''2024-06-02T07:45:00'', ue_category = None,
                ue_completed = Some True\<rparr>"

definition renameGym :: updateHabitArgs where
  "renameGym = \<lparr>uh_habitId = 0, uh_name = Some ''Run'', uh_description = None,
                uh_frequency = None, uh_customDays = None, uh_preferredTime = None,
                uh_durationMinutes = None, uh_color = None, uh_isActive = Some False\<rparr>"

text \<open>A plan whose second event has a category outside the union.\<close>

definition runPlan :: "parsedEvent list" where
  "runPlan = [plannedEvent ''Meditate'' ''07:00'' ''07:30'' (Some ''habit''),
              plannedEvent ''Run'' ''08:00'' ''08:30'' (Some ''exercise'')]"

definition chatPage :: "json page" where
  "chatPage =
     \<lparr>messages = [], input = ''  done  '', isLoading = False, parsedSchedule = None,
      scheduleConfirmed = False, convexUserId = Some 1\<rparr>"

text \<open>A reply whose fenced block has unbalanced braces, and a stand-in for \<^verbatim>\<open>JSON.parse\<close>
  that knows one text.\<close>

definition brokenReply :: string where
  "brokenReply = ''Plan:'' @ [CHR 0x0A] @ fenceOpen @ [CHR 0x0A] @ ''{ events: [ '' @ [CHR 0x0A]
                   @ fenceClose @ '' ok?''"

text \<open>A reply whose block is the empty object.\<close>

definition emptyReply :: string where
  "emptyReply = ''Plan:'' @ [CHR 0x0A] @ fenceOpen @ [CHR 0x0A] @ ''{}'' @ [CHR 0x0A] @ fenceClose"

definition parseOnly :: "string \<Rightarrow> json \<Rightarrow> string \<Rightarrow> json option" where
  "parseOnly text v s = (if s = text then Some v else None)"

section \<open>The streak recompute leaves everything but the habit alone\<close>

lemma find_habit_None:
  "(find (\<lambda>h. habit_id h = hid) hs = None) = (\<forall>h \<in> set hs. habit_id h \<noteq> hid)"
  by (auto simp: find_None_iff)

lemma updateStreak_habitLogs: "habitLogs (updateStreak today hid d) = habitLogs d"
  by (simp add: updateStreak_def Let_def split: option.splits)

lemma updateStreak_nextId: "nextId (updateStreak today hid d) = nextId d"
  by (simp add: updateStreak_def Let_def split: option.splits)

lemma updateStreak_ids:
  "map habit_id (habits (updateStreak today hid d)) = map habit_id (habits d)"
  by (simp add: updateStreak_def Let_def comp_def if_distrib cong: if_cong split: option.splits)

lemma upsertLog_frame:
  "upsertLog now a d = Inr d1 \<Longrightarrow> habits d1 = habits d \<and> nextId d \<le> nextId d1"
  by (auto simp: upsertLog_def split: sum.splits option.splits)

subsection \<open>Evaluating the examples\<close>

lemma iso_jan3: "toISODate jan3 = ''2024-01-03''"
  unfolding jan3_def by code_simp

lemma iso_jan2: "toISODate (setDatePrev jan3) = ''2024-01-02''"
  unfolding jan3_def by code_simp

lemma gymDb_eq:
  "gymDb = \<lparr>habits = [gymHabit 1 1], habitLogs = [gymLog 1 ''2024-01-03'' True 200],
            calendarEvents = [], nextId = 2\<rparr>"
  by (simp add: gymDb_def step_def commit_def createHabit_def logHabitCompletion_def upsertLog_def
      unique_def updateStreak_def sortedLogs_def sortBy_def emptyDb_def gym_def logOn_def
      gymLog_def gymHabit_def iso_jan3 Let_def)

lemma gymDb_future:
  "step (LogHabitCompletion 300 jan3 (logOn ''2024-01-04'' True)) gymDb =
     \<lparr>habits = [gymHabit 0 1],
      habitLogs = [gymLog 1 ''2024-01-03'' True 200, gymLog 2 ''2024-01-04'' True 300],
      calendarEvents = [], nextId = 3\<rparr>"
  by (simp add: gymDb_eq step_def commit_def logHabitCompletion_def upsertLog_def
      unique_def updateStreak_def sortedLogs_def sortBy_def logOn_def localeCompare_def
      gymLog_def gymHabit_def iso_jan3 Let_def)

lemma plan_confirmed:
  "calendarEvents (snd (handleConfirmSchedule ''2024-06-02'' ''Sunday, June 2'' 9
       (planPage plan, emptyDb)))
   = [\<lparr>event_id = 0, event_userId = 1, title = ''Meditate'', event_description = None,
       startTime = ''2024-06-02T07:00:00'', endTime = ''2024-06-02T07:30:00'',
       event_date = ''2024-06-02'', category = Habit, isRecurring = False,
       recurringPattern = None, createdBy = AI, event_completed = Some False,
       event_createdAt = 9\<rparr>,
      \<lparr>event_id = 1, event_userId = 1, title = ''Standup+work'', event_description = None,
       startTime = ''2024-06-02T09:00:00'', endTime = ''2024-06-02T17:00:00'',
       event_date = ''2024-06-02'', category = Other, isRecurring = False,
       recurringPattern = None, createdBy = AI, event_completed = Some False,
       event_createdAt = 9\<rparr>]"
  by (simp add: handleConfirmSchedule_def createManyEvents_def insertEvent_def eventToCreate_def
      plan_def plannedEvent_def planPage_def emptyDb_def categoryOf_def Let_def)

section \<open>C9: a recompute for a habit that is gone\<close>

text \<open>
  C9. When the habit of a streak recompute does not exist, \<^verbatim>\<open>updateStreak\<close> returns without
  an error and leaves the store as it is, so \<^verbatim>\<open>logHabitCompletion\<close> for such a habit is
  exactly its log write; and for any habit, when the log write succeeds the call succeeds
  and the logs it returns are those the write produced: the recompute undoes nothing.
\<close>

theorem updateStreak_missing_habit_noop:
  assumes "\<forall>h \<in> set (habits d). habit_id h \<noteq> hid"
  shows "updateStreak today hid d = d
       \<and> (la_habitId a = hid \<longrightarrow> logHabitCompletion now today a d = upsertLog now a d)
       \<and> (\<forall>b d1. upsertLog now b d = Inr d1 \<longrightarrow>
             (\<exists>d2. logHabitCompletion now today b d = Inr d2 \<and> habitLogs d2 = habitLogs d1))"
proof -
  have none: "find (\<lambda>h. habit_id h = hid) (habits d) = None"
    using assms by (simp add: find_habit_None)
  have noop: "updateStreak today hid d = d"
    by (simp add: updateStreak_def none)
  have same: "logHabitCompletion now today a d = upsertLog now a d" if "la_habitId a = hid"
  proof (cases "upsertLog now a d")
    case (Inl e)
    then show ?thesis by (simp add: logHabitCompletion_def)
  next
    case (Inr d1)
    have "habits d1 = habits d"
      using upsertLog_frame [OF Inr] by simp
    then have "find (\<lambda>h. habit_id h = hid) (habits d1) = None"
      using none by simp
    then have "updateStreak today hid d1 = d1"
      by (simp add: updateStreak_def)
    then show ?thesis using Inr that by (simp add: logHabitCompletion_def)
  qed
  have kept: "\<forall>b d1. upsertLog now b d = Inr d1 \<longrightarrow>
             (\<exists>d2. logHabitCompletion now today b d = Inr d2 \<and> habitLogs d2 = habitLogs d1)"
    by (simp add: logHabitCompletion_def updateStreak_habitLogs)
  show ?thesis using noop same kept by blast
qed

text \<open>In the empty store no habit has id 7: the recompute is a no-op there, and logging a
  completion for habit 7 succeeds and leaves exactly the new log.\<close>

theorem updateStreak_missing_habit_noop_witness:
  "updateStreak jan3 7 emptyDb = emptyDb
   \<and> logHabitCompletion 5 jan3 ((logOn ''2024-01-03'' True)\<lparr>la_habitId := 7\<rparr>) emptyDb
       = Inr \<lparr>habits = [],
              habitLogs = [(gymLog 0 ''2024-01-03'' True 5)\<lparr>habitId := 7\<rparr>],
              calendarEvents = [], nextId = 1\<rparr>"
proof -
  have h: "\<forall>h \<in> set (habits emptyDb). habit_id h \<noteq> 7"
    by (simp add: emptyDb_def)
  have u: "upsertLog 5 ((logOn ''2024-01-03'' True)\<lparr>la_habitId := 7\<rparr>) emptyDb
       = Inr \<lparr>habits = [],
              habitLogs = [(gymLog 0 ''2024-01-03'' True 5)\<lparr>habitId := 7\<rparr>],
              calendarEvents = [], nextId = 1\<rparr>"
    by (simp add: upsertLog_def unique_def emptyDb_def logOn_def gymLog_def)
  show ?thesis
    using updateStreak_missing_habit_noop
      [OF h, of jan3 "(logOn ''2024-01-03'' True)\<lparr>la_habitId := 7\<rparr>" 5] u
    by (simp add: logOn_def)
qed

section \<open>C8: deleting a habit\<close>

lemma deleteLogs_fold:
  "habitLogs (foldl (\<lambda>s lg. s\<lparr>habitLogs := filter (\<lambda>l. log_id l \<noteq> log_id lg) (habitLogs s)\<rparr>) d logs)
     = filter (\<lambda>l. log_id l \<notin> log_id ` set logs) (habitLogs d)"
  by (induction logs arbitrary: d) (auto intro: filter_cong)

lemma deleteLogs_habits_fold:
  "habits (foldl (\<lambda>s lg. s\<lparr>habitLogs := filter (\<lambda>l. log_id l \<noteq> log_id lg) (habitLogs s)\<rparr>) d logs)
     = habits d"
  by (induction logs arbitrary: d) auto

lemma deleteLogs_nextId_fold:
  "nextId (foldl (\<lambda>s lg. s\<lparr>habitLogs := filter (\<lambda>l. log_id l \<noteq> log_id lg) (habitLogs s)\<rparr>) d logs)
     = nextId d"
  by (induction logs arbitrary: d) auto

lemma deleteLogs_habitLogs:
  "habitLogs (deleteLogs hid d) =
     filter (\<lambda>l. log_id l \<notin> log_id ` {l \<in> set (habitLogs d). habitId l = hid}) (habitLogs d)"
  by (simp add: deleteLogs_def deleteLogs_fold)

lemma deleteLogs_habits: "habits (deleteLogs hid d) = habits d"
  by (simp add: deleteLogs_def deleteLogs_habits_fold)

lemma deleteLogs_nextId: "nextId (deleteLogs hid d) = nextId d"
  by (simp add: deleteLogs_def deleteLogs_nextId_fold)

lemma deleteLogs_none_left: "\<forall>l \<in> set (habitLogs (deleteLogs hid d)). habitId l \<noteq> hid"
  by (auto simp: deleteLogs_habitLogs)

text \<open>
  C8. Deleting a habit that exists succeeds; afterwards no log refers to the habit and no
  habit has its id. The logs go first: the store after the deletion of the logs has no log
  of the habit and still has every habit, and the result is that store without the habit.
\<close>

theorem deleteHabit_cascades:
  assumes "\<exists>h \<in> set (habits d). habit_id h = hid"
  shows "\<exists>d'. deleteHabit hid d = Inr d'
           \<and> (\<forall>l \<in> set (habitLogs d'). habitId l \<noteq> hid)
           \<and> (\<forall>h \<in> set (habits d'). habit_id h \<noteq> hid)
           \<and> (\<forall>l \<in> set (habitLogs (deleteLogs hid d)). habitId l \<noteq> hid)
           \<and> habits (deleteLogs hid d) = habits d
           \<and> d' = (deleteLogs hid d)\<lparr>habits := filter (\<lambda>h. habit_id h \<noteq> hid) (habits d)\<rparr>"
proof -
  let ?d1 = "deleteLogs hid d"
  let ?d' = "?d1\<lparr>habits := filter (\<lambda>h. habit_id h \<noteq> hid) (habits d)\<rparr>"
  have "deleteHabit hid d = Inr ?d'"
    using assms by (simp add: deleteHabit_def Let_def deleteLogs_habits)
  moreover have "\<forall>l \<in> set (habitLogs ?d'). habitId l \<noteq> hid"
    using deleteLogs_none_left by simp
  moreover have "\<forall>h \<in> set (habits ?d'). habit_id h \<noteq> hid"
    by simp
  ultimately show ?thesis
    using deleteLogs_none_left deleteLogs_habits by blast
qed

text \<open>The gym habit with its log: after the deletion both tables are empty.\<close>

theorem deleteHabit_cascades_witness:
  "habits gymDb = [gymHabit 1 1] \<and> habitLogs gymDb = [gymLog 1 ''2024-01-03'' True 200]
   \<and> habit_id (gymHabit 1 1) = 0
   \<and> deleteHabit 0 gymDb = Inr \<lparr>habits = [], habitLogs = [], calendarEvents = [], nextId = 2\<rparr>"
proof -
  have h: "\<exists>h \<in> set (habits gymDb). habit_id h = 0"
    by (simp add: gymDb_eq gymHabit_def)
  have l: "habitLogs (deleteLogs 0 gymDb) = []"
    by (simp add: deleteLogs_def gymDb_eq gymLog_def)
  have n: "calendarEvents (deleteLogs 0 gymDb) = [] \<and> nextId (deleteLogs 0 gymDb) = 2"
    by (simp add: deleteLogs_def gymDb_eq gymLog_def)
  obtain d' where d': "deleteHabit 0 gymDb = Inr d'"
      "d' = (deleteLogs 0 gymDb)\<lparr>habits := filter (\<lambda>h. habit_id h \<noteq> 0) (habits gymDb)\<rparr>"
    using deleteHabit_cascades [OF h] by blast
  have "d' = \<lparr>habits = [], habitLogs = [], calendarEvents = [], nextId = 2\<rparr>"
    using d'(2) l n by (simp add: gymDb_eq gymHabit_def)
  then show ?thesis using d'(1) by (simp add: gymDb_eq gymHabit_def)
qed

section \<open>C10: what an update cannot touch\<close>

lemma habitFrame_refl: "habitFrame u h h"
  by (simp add: habitFrame_def)

lemma habitFrame_patch: "habitFrame u h (patchHabit u h)"
  by (simp add: habitFrame_def patchHabit_def)

lemma eventFrame_refl: "eventFrame u e e"
  by (simp add: eventFrame_def)

lemma eventFrame_patch: "eventFrame u e (patchEvent u e)"
  by (simp add: eventFrame_def patchEvent_def)

lemma list_all2_map_self: "(\<And>x. x \<in> set xs \<Longrightarrow> P x (f x)) \<Longrightarrow> list_all2 P xs (map f xs)"
  by (induction xs) auto

text \<open>
  C10. Whatever the arguments, and whether the call succeeds or throws, \<^verbatim>\<open>updateHabit\<close>
  keeps the habits in place, each with its id, currentStreak, bestStreak, userId and
  createdAt and with every field whose argument is omitted, and it keeps the other tables;
  \<^verbatim>\<open>updateEvent\<close> keeps the events in place, each with its id, date, userId, createdBy,
  createdAt and recurrence and with every field whose argument is omitted, and it keeps
  the other tables.
\<close>

theorem update_leaves_omitted_fields:
  "list_all2 (habitFrame u) (habits d) (habits (commit d (updateHabit u d)))
   \<and> habitLogs (commit d (updateHabit u d)) = habitLogs d
   \<and> calendarEvents (commit d (updateHabit u d)) = calendarEvents d
   \<and> list_all2 (eventFrame v) (calendarEvents d) (calendarEvents (commit d (updateEvent v d)))
   \<and> habits (commit d (updateEvent v d)) = habits d
   \<and> habitLogs (commit d (updateEvent v d)) = habitLogs d"
proof -
  have h: "list_all2 (habitFrame u) (habits d)
             (map (\<lambda>h. if habit_id h = uh_habitId u then patchHabit u h else h) (habits d))"
    by (rule list_all2_map_self) (simp add: habitFrame_refl habitFrame_patch)
  have e: "list_all2 (eventFrame v) (calendarEvents d)
             (map (\<lambda>e. if event_id e = ue_eventId v then patchEvent v e else e) (calendarEvents d))"
    by (rule list_all2_map_self) (simp add: eventFrame_refl eventFrame_patch)
  have h0: "list_all2 (habitFrame u) (habits d) (habits d)"
    by (simp add: list_all2_same habitFrame_refl)
  have e0: "list_all2 (eventFrame v) (calendarEvents d) (calendarEvents d)"
    by (simp add: list_all2_same eventFrame_refl)
  show ?thesis
    using h e h0 e0 by (simp add: commit_def updateHabit_def updateEvent_def)
qed

text \<open>Renaming the gym habit and switching it off changes the name and the flag; the
  streaks, the owner, the creation time and the omitted fields stay. Ticking the first
  event of the confirmed plan and moving its end changes those two fields; its date, owner,
  provenance, title, start and category stay, and so does the second event.\<close>

theorem update_leaves_omitted_fields_witness:
  "habits gymDb = [gymHabit 1 1]
   \<and> habits (commit gymDb (updateHabit renameGym gymDb))
       = [(gymHabit 1 1)\<lparr>name := ''Run'', isActive := False\<rparr>]
   \<and> list_all2 (habitFrame renameGym)
        [gymHabit 1 1] [(gymHabit 1 1)\<lparr>name := ''Run'', isActive := False\<rparr>]
   \<and> map event_completed (calendarEvents planDb) = [Some False, Some False]
   \<and> map event_completed (calendarEvents (commit planDb (updateEvent tickFirst planDb)))
       = [Some True, Some False]
   \<and> map endTime (calendarEvents (commit planDb (updateEvent tickFirst planDb)))
       = [''2024-06-02T07:45:00'', ''2024-06-02T17:00:00'']
   \<and> list_all2 (eventFrame tickFirst) (calendarEvents planDb)
        (calendarEvents (commit planDb (updateEvent tickFirst planDb)))"
proof -
  have r: "habits (commit gymDb (updateHabit renameGym gymDb))
             = [(gymHabit 1 1)\<lparr>name := ''Run'', isActive := False\<rparr>]"
    by (simp add: commit_def updateHabit_def patchHabit_def gymDb_eq gymHabit_def renameGym_def)
  have g: "habits gymDb = [gymHabit 1 1]"
    by (simp add: gymDb_eq)
  have e: "map event_completed (calendarEvents planDb) = [Some False, Some False]"
    by (simp add: planDb_def plan_confirmed)
  have c: "map event_completed (calendarEvents (commit planDb (updateEvent tickFirst planDb)))
             = [Some True, Some False]
         \<and> map endTime (calendarEvents (commit planDb (updateEvent tickFirst planDb)))
             = [''2024-06-02T07:45:00'', ''2024-06-02T17:00:00'']"
    by (simp add: commit_def updateEvent_def patchEvent_def planDb_def plan_confirmed tickFirst_def)
  show ?thesis
    using update_leaves_omitted_fields [of renameGym gymDb tickFirst]
      update_leaves_omitted_fields [of renameGym planDb tickFirst] r g e c
    by simp
qed

section \<open>C5: a reply whose schedule block cannot be used\<close>

lemma proposedEvents_None: "\<not> hasEventsArray v \<Longrightarrow> proposedEvents v = None"
  by (auto simp: proposedEvents_def hasEventsArray_def split: json.splits option.splits)

text \<open>
  C5. After a submit that is accepted and a reply that streams to its end, when the reply
  has a fenced block that \<^verbatim>\<open>JSON.parse\<close> throws on, or that parses to a value without an
  events array, the proposed schedule and the confirmation flag are what they were, the
  store is untouched, and the transcript is the old one followed by the user's message
  and the assistant's whole reply.
\<close>

theorem unparsable_schedule_changes_nothing:
  assumes "trim (input p) \<noteq> []" and "\<not> isLoading p"
    and "jsonMatch (concat chunks) = Some body"
    and "JSON_parse body = None \<or> (\<exists>v. JSON_parse body = Some v \<and> \<not> hasEventsArray v)"
  shows "parsedSchedule (fst (handleSubmit JSON_parse (Streamed chunks) (p, d))) = parsedSchedule p
       \<and> scheduleConfirmed (fst (handleSubmit JSON_parse (Streamed chunks) (p, d))) = scheduleConfirmed p
       \<and> snd (handleSubmit JSON_parse (Streamed chunks) (p, d)) = d
       \<and> messages (fst (handleSubmit JSON_parse (Streamed chunks) (p, d)))
           = messages p @ [\<lparr>role = UserRole, content = trim (input p)\<rparr>,
                           \<lparr>role = Assistant, content = concat chunks\<rparr>]"
proof -
  have "handleSubmit JSON_parse (Streamed chunks) (p, d) =
           (p\<lparr>messages := messages p @ [\<lparr>role = UserRole, content = trim (input p)\<rparr>,
                                          \<lparr>role = Assistant, content = concat chunks\<rparr>],
              input := [], isLoading := False\<rparr>, d)"
    using assms by (auto simp: handleSubmit_def Let_def proposedEvents_None)
  then show ?thesis by simp
qed

lemma trim_done: "trim ''  done  '' = ''done''"
  by (simp add: trim_def isSpace1_def isSpace2_def isSpace3_def)

lemma jsonMatch_brokenReply: "jsonMatch brokenReply = Some ''{ events: [''"
  by (simp add: jsonMatch_def brokenReply_def fenceOpen_def fenceClose_def closesHere_def
      isSpace1_def isSpace2_def isSpace3_def)

lemma jsonMatch_emptyReply: "jsonMatch emptyReply = Some ''{}''"
  by (simp add: jsonMatch_def emptyReply_def fenceOpen_def fenceClose_def closesHere_def
      isSpace1_def isSpace2_def isSpace3_def)

text \<open>The reply with the unbalanced block arrives in two chunks and the parser throws on
  the block; the reply with the empty object parses, to a value without events. Either way
  the page has no proposed schedule afterwards, the store is the same, and the transcript
  ends with the whole reply.\<close>

theorem unparsable_schedule_changes_nothing_witness:
  "trim (input chatPage) = ''done'' \<and> isLoading chatPage = False
   \<and> jsonMatch (concat [take 9 brokenReply, drop 9 brokenReply]) = Some ''{ events: [''
   \<and> parseOnly ''{}'' (JObj []) ''{ events: ['' = None
   \<and> parsedSchedule (fst (handleSubmit (parseOnly ''{}'' (JObj []))
         (Streamed [take 9 brokenReply, drop 9 brokenReply]) (chatPage, gymDb))) = None
   \<and> snd (handleSubmit (parseOnly ''{}'' (JObj []))
         (Streamed [take 9 brokenReply, drop 9 brokenReply]) (chatPage, gymDb)) = gymDb
   \<and> messages (fst (handleSubmit (parseOnly ''{}'' (JObj []))
         (Streamed [take 9 brokenReply, drop 9 brokenReply]) (chatPage, gymDb)))
       = [\<lparr>role = UserRole, content = ''done''\<rparr>, \<lparr>role = Assistant, content = brokenReply\<rparr>]
   \<and> jsonMatch (concat [emptyReply]) = Some ''{}''
   \<and> parseOnly ''{}'' (JObj []) ''{}'' = Some (JObj [])
   \<and> hasEventsArray (JObj []) = False
   \<and> parsedSchedule (fst (handleSubmit (parseOnly ''{}'' (JObj []))
         (Streamed [emptyReply]) (chatPage, gymDb))) = None
   \<and> snd (handleSubmit (parseOnly ''{}'' (JObj [])) (Streamed [emptyReply]) (chatPage, gymDb))
       = gymDb
   \<and> messages (fst (handleSubmit (parseOnly ''{}'' (JObj []))
         (Streamed [emptyReply]) (chatPage, gymDb)))
       = [\<lparr>role = UserRole, content = ''done''\<rparr>, \<lparr>role = Assistant, content = emptyReply\<rparr>]"
proof -
  have c: "concat [take 9 brokenReply, drop 9 brokenReply] = brokenReply"
    by simp
  have 1: "trim (input chatPage) \<noteq> []"
    by (simp add: chatPage_def trim_done)
  have 2: "\<not> isLoading chatPage"
    by (simp add: chatPage_def)
  have 3: "jsonMatch (concat [take 9 brokenReply, drop 9 brokenReply]) = Some ''{ events: [''"
    by (simp only: c jsonMatch_brokenReply)
  have 4: "parseOnly ''{}'' (JObj []) ''{ events: ['' = None
           \<or> (\<exists>v. parseOnly ''{}'' (JObj []) ''{ events: ['' = Some v \<and> \<not> hasEventsArray v)"
    by (simp add: parseOnly_def)
  have 5: "hasEventsArray (JObj []) = False"
    by (simp add: hasEventsArray_def)
  have 6: "jsonMatch (concat [emptyReply]) = Some ''{}''"
    by (simp add: jsonMatch_emptyReply)
  have 7: "parseOnly ''{}'' (JObj []) ''{}'' = None
           \<or> (\<exists>v. parseOnly ''{}'' (JObj []) ''{}'' = Some v \<and> \<not> hasEventsArray v)"
    by (simp add: parseOnly_def hasEventsArray_def)
  note broken = unparsable_schedule_changes_nothing
    [where p = chatPage and chunks = "[take 9 brokenReply, drop 9 brokenReply]"
       and body = "''{ events: [''" and JSON_parse = "parseOnly ''{}'' (JObj [])" and d = gymDb]
  note empty = unparsable_schedule_changes_nothing
    [where p = chatPage and chunks = "[emptyReply]"
       and body = "''{}''" and JSON_parse = "parseOnly ''{}'' (JObj [])" and d = gymDb]
  show ?thesis
    using broken [OF 1 2 3 4] empty [OF 1 2 6 7] 3 5 6
    by (simp add: chatPage_def trim_done parseOnly_def)
qed

section \<open>C6 and C2: confirming the proposed schedule\<close>

lemma insertEvents_appends:
  "\<exists>new. calendarEvents (snd (insertEvents now uid typed d)) = calendarEvents d @ new
         \<and> list_all2 (insertedFrom now uid) typed new
         \<and> habits (snd (insertEvents now uid typed d)) = habits d
         \<and> habitLogs (snd (insertEvents now uid typed d)) = habitLogs d"
proof (induction typed arbitrary: d)
  case Nil
  then show ?case by simp
next
  case (Cons ec typed)
  let ?d1 = "snd (insertEvent now uid ec d)"
  obtain new where new:
    "calendarEvents (snd (insertEvents now uid typed ?d1)) = calendarEvents ?d1 @ new"
    "list_all2 (insertedFrom now uid) typed new"
    "habits (snd (insertEvents now uid typed ?d1)) = habits ?d1"
    "habitLogs (snd (insertEvents now uid typed ?d1)) = habitLogs ?d1"
    using Cons.IH by blast
  obtain e where e: "calendarEvents ?d1 = calendarEvents d @ [e]" "insertedFrom now uid ec e"
    "habits ?d1 = habits d" "habitLogs ?d1 = habitLogs d"
    by (simp add: insertEvent_def insertedFrom_def Let_def)
  have "calendarEvents (snd (insertEvents now uid (ec # typed) d)) = calendarEvents d @ (e # new)"
    using new(1) e(1) by (simp add: Let_def)
  moreover have "list_all2 (insertedFrom now uid) (ec # typed) (e # new)"
    using new(2) e(2) by simp
  moreover have "habits (snd (insertEvents now uid (ec # typed) d)) = habits d"
    using new(3) e(3) by (simp add: Let_def)
  moreover have "habitLogs (snd (insertEvents now uid (ec # typed) d)) = habitLogs d"
    using new(4) e(4) by (simp add: Let_def)
  ultimately show ?case by blast
qed

lemma categoryOf_other: "categoryOf ''other'' = Some Other"
  by (simp add: categoryOf_def)

lemma validateEvents_known:
  "list_all knownCategory sched \<Longrightarrow>
   \<exists>typed. validateEvents (map (eventToCreate td) sched) = Some typed
          \<and> list_all2 (\<lambda>ev ec. fst ec = eventToCreate td ev
                \<and> categoryOf (ea_category (eventToCreate td ev)) = Some (snd ec)) sched typed"
proof (induction sched)
  case Nil
  then show ?case by simp
next
  case (Cons ev sched)
  then obtain typed where t: "validateEvents (map (eventToCreate td) sched) = Some typed"
    "list_all2 (\<lambda>ev ec. fst ec = eventToCreate td ev
         \<and> categoryOf (ea_category (eventToCreate td ev)) = Some (snd ec)) sched typed"
    by auto
  have "knownCategory ev" using Cons.prems by simp
  then have "\<exists>c. categoryOf (ea_category (eventToCreate td ev)) = Some c"
    by (cases "pe_category ev") (auto simp: knownCategory_def eventToCreate_def categoryOf_other)
  then obtain c where c: "categoryOf (ea_category (eventToCreate td ev)) = Some c" ..
  have "validateEvents (map (eventToCreate td) (ev # sched)) = Some ((eventToCreate td ev, c) # typed)"
    using t(1) c by simp
  then show ?case using t(2) c by auto
qed

lemma confirmedFrom_inserted:
  assumes "fst ec = eventToCreate td ev"
    and "categoryOf (ea_category (eventToCreate td ev)) = Some (snd ec)"
    and "insertedFrom now uid ec e"
  shows "confirmedFrom td ev e"
  using assms
  by (auto simp: confirmedFrom_def insertedFrom_def eventToCreate_def categoryOf_other
           split: option.splits)




lemma validateEvents_unknown:
  "\<not> list_all knownCategory sched \<Longrightarrow> validateEvents (map (eventToCreate td) sched) = None"
proof (induction sched)
  case Nil
  then show ?case by simp
next
  case (Cons ev sched)
  show ?case
  proof (cases "knownCategory ev")
    case True
    then have "\<not> list_all knownCategory sched" using Cons.prems by simp
    then have "validateEvents (map (eventToCreate td) sched) = None" by (rule Cons.IH)
    then show ?thesis by (simp split: option.splits)
  next
    case False
    then obtain c where c: "pe_category ev = Some c" "c \<noteq> []" "categoryOf c = None"
      by (auto simp: knownCategory_def split: option.splits)
    then have "categoryOf (ea_category (eventToCreate td ev)) = None"
      by (simp add: eventToCreate_def)
    then show ?thesis by simp
  qed
qed

text \<open>
  C2, as the code has it. A valid proposed schedule is a list of N events of the interface
  \<^verbatim>\<open>ParsedEvent\<close>. When the category of each is absent, empty or one of the seven literals,
  confirming it appends exactly N events to the calendar, in order, and sets the
  confirmation flag; each event has the planning date as its date, the start and end times
  built from that date, \<^verbatim>\<open>T\<close>, the proposed time and \<^verbatim>\<open>:00\<close>, provenance ai, no recurrence,
  and the proposed category, with an absent or empty one stored as other. When some event
  has another category, that category is not replaced by other: the call is rejected, the
  store is the one before, so no event is created, the confirmation flag is what it was,
  the transcript ends with the apology and the proposed schedule is kept.
\<close>

theorem confirm_creates_events:
  assumes "parsedSchedule p = Some sched" and "convexUserId p = Some uid"
  shows "(list_all knownCategory sched \<longrightarrow>
           (\<exists>new. calendarEvents (snd (handleConfirmSchedule tomorrowDate tomorrowFormatted now (p, d)))
                     = calendarEvents d @ new
                 \<and> length new = length sched
                 \<and> list_all2 (confirmedFrom tomorrowDate) sched new
                 \<and> scheduleConfirmed
                     (fst (handleConfirmSchedule tomorrowDate tomorrowFormatted now (p, d)))))
       \<and> (\<not> list_all knownCategory sched \<longrightarrow>
             snd (handleConfirmSchedule tomorrowDate tomorrowFormatted now (p, d)) = d
           \<and> scheduleConfirmed (fst (handleConfirmSchedule tomorrowDate tomorrowFormatted now (p, d)))
               = scheduleConfirmed p
           \<and> messages (fst (handleConfirmSchedule tomorrowDate tomorrowFormatted now (p, d)))
               = messages p @ [\<lparr>role = Assistant, content = saveErrorText\<rparr>]
           \<and> parsedSchedule (fst (handleConfirmSchedule tomorrowDate tomorrowFormatted now (p, d)))
               = Some sched)"
proof (intro conjI impI)
  assume known: "list_all knownCategory sched"
  obtain typed where t: "validateEvents (map (eventToCreate tomorrowDate) sched) = Some typed"
    "list_all2 (\<lambda>ev ec. fst ec = eventToCreate tomorrowDate ev
        \<and> categoryOf (ea_category (eventToCreate tomorrowDate ev)) = Some (snd ec)) sched typed"
    using validateEvents_known [OF known] by blast
  obtain new where new: "calendarEvents (snd (insertEvents now uid typed d)) = calendarEvents d @ new"
    "list_all2 (insertedFrom now uid) typed new"
    using insertEvents_appends by blast
  have ran: "handleConfirmSchedule tomorrowDate tomorrowFormatted now (p, d) =
      (p\<lparr>messages := messages p @ [\<lparr>role = Assistant, content = savedText tomorrowFormatted\<rparr>],
         isLoading := False, scheduleConfirmed := True\<rparr>, snd (insertEvents now uid typed d))"
    using assms(1,2) t(1) by (simp add: handleConfirmSchedule_def createManyEvents_def)
  have rel: "list_all2 (confirmedFrom tomorrowDate) sched new"
  proof (rule list_all2_all_nthI)
    show "length sched = length new"
      using t(2) new(2) by (simp add: list_all2_lengthD)
  next
    fix n assume n: "n < length sched"
    have a: "fst (typed ! n) = eventToCreate tomorrowDate (sched ! n)
        \<and> categoryOf (ea_category (eventToCreate tomorrowDate (sched ! n))) = Some (snd (typed ! n))"
      using t(2) n by (simp add: list_all2_conv_all_nth)
    have "n < length typed" using t(2) n by (simp add: list_all2_lengthD)
    then have b: "insertedFrom now uid (typed ! n) (new ! n)"
      using new(2) by (simp add: list_all2_conv_all_nth)
    show "confirmedFrom tomorrowDate (sched ! n) (new ! n)"
      using a b confirmedFrom_inserted by blast
  qed
  have "length new = length sched" using rel by (simp add: list_all2_lengthD)
  then show "\<exists>new. calendarEvents (snd (handleConfirmSchedule tomorrowDate tomorrowFormatted now (p, d)))
                     = calendarEvents d @ new
                 \<and> length new = length sched
                 \<and> list_all2 (confirmedFrom tomorrowDate) sched new
                 \<and> scheduleConfirmed
                     (fst (handleConfirmSchedule tomorrowDate tomorrowFormatted now (p, d)))"
    using ran new(1) rel by auto
next
  assume unknown: "\<not> list_all knownCategory sched"
  have rejected: "handleConfirmSchedule tomorrowDate tomorrowFormatted now (p, d) =
      (p\<lparr>messages := messages p @ [\<lparr>role = Assistant, content = saveErrorText\<rparr>],
         isLoading := False\<rparr>, d)"
    using assms validateEvents_unknown [OF unknown, of tomorrowDate]
    by (simp add: handleConfirmSchedule_def createManyEvents_def)
  show "snd (handleConfirmSchedule tomorrowDate tomorrowFormatted now (p, d)) = d"
    by (simp add: rejected)
  show "scheduleConfirmed (fst (handleConfirmSchedule tomorrowDate tomorrowFormatted now (p, d)))
          = scheduleConfirmed p"
    by (simp add: rejected)
  show "messages (fst (handleConfirmSchedule tomorrowDate tomorrowFormatted now (p, d)))
          = messages p @ [\<lparr>role = Assistant, content = saveErrorText\<rparr>]"
    by (simp add: rejected)
  show "parsedSchedule (fst (handleConfirmSchedule tomorrowDate tomorrowFormatted now (p, d)))
          = Some sched"
    using assms(1) by (simp add: rejected)
qed

text \<open>Scenario 4 of the specification, the second event without a category: two events
  are stored, at 07:00 and 09:00 of 2 June 2024, the second as other. The plan with the
  category exercise: nothing is stored, not even its first event, and the page is not
  confirmed and keeps the plan.\<close>

theorem confirm_creates_events_witness:
  "parsedSchedule (planPage plan) = Some plan \<and> convexUserId (planPage plan) = Some 1
   \<and> list_all knownCategory plan
   \<and> map startTime (calendarEvents (snd (handleConfirmSchedule ''2024-06-02'' ''Sunday, June 2'' 9
        (planPage plan, emptyDb)))) = [''2024-06-02T07:00:00'', ''2024-06-02T09:00:00'']
   \<and> map category (calendarEvents (snd (handleConfirmSchedule ''2024-06-02'' ''Sunday, June 2'' 9
        (planPage plan, emptyDb)))) = [Habit, Other]
   \<and> (\<exists>new. calendarEvents (snd (handleConfirmSchedule ''2024-06-02'' ''Sunday, June 2'' 9
                 (planPage plan, emptyDb))) = calendarEvents emptyDb @ new
            \<and> length new = length plan
            \<and> list_all2 (confirmedFrom ''2024-06-02'') plan new
            \<and> scheduleConfirmed (fst (handleConfirmSchedule ''2024-06-02'' ''Sunday, June 2'' 9
                 (planPage plan, emptyDb))))
   \<and> parsedSchedule (planPage runPlan) = Some runPlan
   \<and> \<not> list_all knownCategory runPlan
   \<and> snd (handleConfirmSchedule ''2024-06-02'' ''Sunday, June 2'' 9 (planPage runPlan, gymDb))
       = gymDb
   \<and> scheduleConfirmed (fst (handleConfirmSchedule ''2024-06-02'' ''Sunday, June 2'' 9
        (planPage runPlan, gymDb))) = False
   \<and> messages (fst (handleConfirmSchedule ''2024-06-02'' ''Sunday, June 2'' 9
        (planPage runPlan, gymDb))) = [\<lparr>role = Assistant, content = saveErrorText\<rparr>]
   \<and> parsedSchedule (fst (handleConfirmSchedule ''2024-06-02'' ''Sunday, June 2'' 9
        (planPage runPlan, gymDb))) = Some runPlan"
proof -
  have 1: "parsedSchedule (planPage plan) = Some plan"
    by (simp add: planPage_def)
  have 2: "convexUserId (planPage plan) = Some 1"
    by (simp add: planPage_def)
  have 3: "list_all knownCategory plan"
    by (simp add: plan_def plannedEvent_def knownCategory_def categoryOf_def)
  have 4: "parsedSchedule (planPage runPlan) = Some runPlan"
    by (simp add: planPage_def)
  have 5: "convexUserId (planPage runPlan) = Some 1"
    by (simp add: planPage_def)
  have 6: "\<not> list_all knownCategory runPlan"
    by (simp add: runPlan_def plannedEvent_def knownCategory_def categoryOf_def)
  have 7: "scheduleConfirmed (planPage runPlan) = False \<and> messages (planPage runPlan) = []"
    by (simp add: planPage_def)
  show ?thesis
    using confirm_creates_events [OF 1 2, of "''2024-06-02''" "''Sunday, June 2''" 9 emptyDb]
      confirm_creates_events [OF 4 5, of "''2024-06-02''" "''Sunday, June 2''" 9 gymDb]
      1 2 3 4 6 7
    by (simp add: plan_confirmed)
qed

text \<open>C2 as stated fails for a category outside the union: it is not stored as other; the
  validator rejects the call and no event is created.\<close>

theorem unknown_category_not_defaulted:
  "parsedSchedule (planPage [plannedEvent ''Run'' ''08:00'' ''08:30'' (Some ''exercise'')])
     = Some [plannedEvent ''Run'' ''08:00'' ''08:30'' (Some ''exercise'')]
   \<and> categoryOf ''exercise'' = None
   \<and> calendarEvents (snd (handleConfirmSchedule ''2024-06-02'' ''Sunday, June 2'' 9
        (planPage [plannedEvent ''Run'' ''08:00'' ''08:30'' (Some ''exercise'')], emptyDb))) = []
   \<and> length (calendarEvents (snd (handleConfirmSchedule ''2024-06-02'' ''Sunday, June 2'' 9
        (planPage [plannedEvent ''Run'' ''08:00'' ''08:30'' (Some ''exercise'')], emptyDb))))
       \<noteq> length [plannedEvent ''Run'' ''08:00'' ''08:30'' (Some ''exercise'')]
   \<and> \<not> scheduleConfirmed (fst (handleConfirmSchedule ''2024-06-02'' ''Sunday, June 2'' 9
        (planPage [plannedEvent ''Run'' ''08:00'' ''08:30'' (Some ''exercise'')], emptyDb)))"
  by (simp add: handleConfirmSchedule_def createManyEvents_def eventToCreate_def
      plannedEvent_def planPage_def emptyDb_def categoryOf_def Let_def)

section \<open>C4: one log per habit and date\<close>

lemma uniqueLogs_pair: "uniqueLogs d \<Longrightarrow> length (logsFor hid dt d) \<le> 1"
proof (cases "logsFor hid dt d")
  case Nil
  then show ?thesis by simp
next
  case (Cons l ls)
  assume u: "uniqueLogs d"
  have "l \<in> set (logsFor hid dt d)" using Cons by simp
  then have "l \<in> set (habitLogs d)" "habitId l = hid" "log_date l = dt"
    by (auto simp: logsFor_def)
  then show ?thesis using u by (auto simp: uniqueLogs_def)
qed

lemma uniqueLogs_sublist:
  assumes "uniqueLogs d" and "habitLogs d' = filter P (habitLogs d)"
  shows "uniqueLogs d'"
proof -
  have "length (logsFor hid dt d') \<le> 1" for hid dt
  proof -
    have "logsFor hid dt d' = filter P (logsFor hid dt d)"
      using assms(2) by (auto simp: logsFor_def intro: filter_cong)
    then have "length (logsFor hid dt d') \<le> length (logsFor hid dt d)" by simp
    then show ?thesis using uniqueLogs_pair [OF assms(1), of hid dt] by linarith
  qed
  then show ?thesis by (simp add: uniqueLogs_def)
qed

lemma uniqueLogs_same: "habitLogs d' = habitLogs d \<Longrightarrow> uniqueLogs d' = uniqueLogs d"
  by (simp add: uniqueLogs_def logsFor_def)

lemma upsertLog_upserts:
  assumes "uniqueLogs d"
  shows "\<exists>d1 l. upsertLog now a d = Inr d1 \<and> uniqueLogs d1
           \<and> logsFor (la_habitId a) (la_date a) d1 = [l]
           \<and> log_completed l = la_completed a \<and> log_notes l = la_notes a
           \<and> (logsFor (la_habitId a) (la_date a) d \<noteq> [] \<longrightarrow>
                map log_id (habitLogs d1) = map log_id (habitLogs d))"
proof -
  let ?P = "\<lambda>l. habitId l = la_habitId a \<and> log_date l = la_date a"
  have le: "length (filter ?P (habitLogs d)) \<le> 1"
    using uniqueLogs_pair [OF assms, of "la_habitId a" "la_date a"] by (simp add: logsFor_def)
  show ?thesis
  proof (cases "filter ?P (habitLogs d)")
    case Nil
    let ?new = "\<lparr>log_id = nextId d, habitId = la_habitId a, log_userId = la_userId a,
                     log_date = la_date a, log_completed = la_completed a, log_notes = la_notes a,
                     log_createdAt = now\<rparr>"
    let ?d1 = "d\<lparr>habitLogs := habitLogs d @ [?new], nextId := Suc (nextId d)\<rparr>"
    have r: "upsertLog now a d = Inr ?d1"
      using Nil by (simp add: upsertLog_def unique_def)
    have f: "logsFor (la_habitId a) (la_date a) ?d1 = [?new]"
      using Nil by (simp add: logsFor_def)
    have u: "uniqueLogs ?d1"
      unfolding uniqueLogs_def
    proof
      fix l assume "l \<in> set (habitLogs ?d1)"
      show "length (logsFor (habitId l) (log_date l) ?d1) \<le> 1"
      proof (cases "?P l")
        case True
        then show ?thesis using f by simp
      next
        case False
        then have "logsFor (habitId l) (log_date l) ?d1 = logsFor (habitId l) (log_date l) d"
          by (auto simp: logsFor_def)
        then show ?thesis using uniqueLogs_pair [OF assms] by simp
      qed
    qed
    have "logsFor (la_habitId a) (la_date a) d = []" using Nil by (simp add: logsFor_def)
    then show ?thesis using r f u by auto
  next
    case (Cons ex others)
    then have none: "others = []" using le by simp
    let ?f = "\<lambda>l. if log_id l = log_id ex
                   then l\<lparr>log_completed := la_completed a, log_notes := la_notes a\<rparr> else l"
    let ?d1 = "d\<lparr>habitLogs := map ?f (habitLogs d)\<rparr>"
    have r: "upsertLog now a d = Inr ?d1"
      using Cons none by (simp add: upsertLog_def unique_def)
    have comm: "logsFor hid dt ?d1 = map ?f (logsFor hid dt d)" for hid dt
      by (simp add: logsFor_def filter_map comp_def if_distrib cong: if_cong)
    have f: "logsFor (la_habitId a) (la_date a) ?d1
               = [ex\<lparr>log_completed := la_completed a, log_notes := la_notes a\<rparr>]"
      using Cons none by (simp add: comm) (simp add: logsFor_def)
    have u: "uniqueLogs ?d1"
      unfolding uniqueLogs_def
    proof
      fix l assume "l \<in> set (habitLogs ?d1)"
      show "length (logsFor (habitId l) (log_date l) ?d1) \<le> 1"
        using uniqueLogs_pair [OF assms] by (simp add: comm)
    qed
    have ids: "map log_id (habitLogs ?d1) = map log_id (habitLogs d)"
      by (simp add: comp_def if_distrib cong: if_cong)
    show ?thesis using r f u ids by auto
  qed
qed

lemma deleteHabit_logs:
  "deleteHabit hid d = Inr d' \<Longrightarrow> \<exists>P. habitLogs d' = filter P (habitLogs d)"
  by (auto simp: deleteHabit_def Let_def deleteLogs_habitLogs split: if_splits)

lemma step_uniqueLogs: "uniqueLogs d \<Longrightarrow> uniqueLogs (step m d)"
proof (cases m)
  case (CreateHabit now args)
  assume "uniqueLogs d"
  then show ?thesis using CreateHabit
    by (simp add: step_def commit_def createHabit_def uniqueLogs_def logsFor_def)
next
  case (UpdateHabit u)
  assume "uniqueLogs d"
  then show ?thesis using UpdateHabit
    by (simp add: step_def commit_def updateHabit_def uniqueLogs_def logsFor_def)
next
  case (DeleteHabit hid)
  assume u: "uniqueLogs d"
  show ?thesis
  proof (cases "deleteHabit hid d")
    case (Inl e)
    then show ?thesis using u DeleteHabit by (simp add: step_def commit_def)
  next
    case (Inr d')
    then obtain P where "habitLogs d' = filter P (habitLogs d)"
      using deleteHabit_logs by blast
    then have "uniqueLogs d'" using u uniqueLogs_sublist by blast
    then show ?thesis using Inr DeleteHabit by (simp add: step_def commit_def)
  qed
next
  case (LogHabitCompletion now today a)
  assume u: "uniqueLogs d"
  obtain d1 where "upsertLog now a d = Inr d1" "uniqueLogs d1"
    using upsertLog_upserts [OF u] by blast
  then show ?thesis using LogHabitCompletion
    by (simp add: step_def commit_def logHabitCompletion_def
        uniqueLogs_same [OF updateStreak_habitLogs])
qed

lemma run_uniqueLogs: "uniqueLogs d \<Longrightarrow> uniqueLogs (run ms d)"
  by (induction ms arbitrary: d) (simp_all add: step_uniqueLogs)

text \<open>
  C4. From a store in which no two logs share a habit and a date, as the empty store is,
  any sequence of the mutations of habits.ts leads to such a store again. In such a store
  every call of \<^verbatim>\<open>logHabitCompletion\<close> succeeds; afterwards exactly one log has the habit
  and date of the call, it carries the completed flag and the notes of the call, and when
  a log for them existed before, the table holds the same documents as before: the write
  went into the existing record.
\<close>

theorem logHabitCompletion_upsert:
  assumes "uniqueLogs d"
  shows "(\<forall>hid dt. length (logsFor hid dt (run ms d)) \<le> 1)
       \<and> (\<exists>d1 l. logHabitCompletion now today a d = Inr d1
             \<and> logsFor (la_habitId a) (la_date a) d1 = [l]
             \<and> log_completed l = la_completed a \<and> log_notes l = la_notes a
             \<and> (logsFor (la_habitId a) (la_date a) d \<noteq> [] \<longrightarrow>
                  map log_id (habitLogs d1) = map log_id (habitLogs d)))"
proof -
  obtain d1 l where d1: "upsertLog now a d = Inr d1"
      "logsFor (la_habitId a) (la_date a) d1 = [l]"
      "log_completed l = la_completed a" "log_notes l = la_notes a"
      "logsFor (la_habitId a) (la_date a) d \<noteq> [] \<longrightarrow>
                map log_id (habitLogs d1) = map log_id (habitLogs d)"
    using upsertLog_upserts [OF assms, of now a] by blast
  let ?d2 = "updateStreak today (la_habitId a) d1"
  have "logHabitCompletion now today a d = Inr ?d2"
    using d1(1) by (simp add: logHabitCompletion_def)
  moreover have "logsFor (la_habitId a) (la_date a) ?d2 = [l]"
    using d1(2) by (simp add: logsFor_def updateStreak_habitLogs)
  moreover have "logsFor (la_habitId a) (la_date a) d \<noteq> [] \<longrightarrow>
                  map log_id (habitLogs ?d2) = map log_id (habitLogs d)"
    using d1(5) by (simp add: updateStreak_habitLogs)
  moreover have "\<forall>hid dt. length (logsFor hid dt (run ms d)) \<le> 1"
    using uniqueLogs_pair [OF run_uniqueLogs [OF assms]] by blast
  ultimately show ?thesis
    using d1(3,4) by blast
qed

lemma gymDb_unique: "uniqueLogs gymDb"
  by (simp add: gymDb_eq uniqueLogs_def logsFor_def)

lemma gymDb_undone:
  "logHabitCompletion 300 jan3 ((logOn ''2024-01-03'' False)\<lparr>la_notes := Some ''sick''\<rparr>) gymDb
   = Inr \<lparr>habits = [gymHabit 0 1],
          habitLogs = [(gymLog 1 ''2024-01-03'' False 200)\<lparr>log_notes := Some ''sick''\<rparr>],
          calendarEvents = [], nextId = 2\<rparr>"
  by (simp add: gymDb_eq logHabitCompletion_def upsertLog_def
      unique_def updateStreak_def sortedLogs_def sortBy_def logOn_def
      gymLog_def gymHabit_def iso_jan3 Let_def)

text \<open>The gym habit is logged as done on 3 January; a second write for that day, not done
  and with a note, leaves one log, the first one with the new flag and note.\<close>

theorem logHabitCompletion_upsert_witness:
  "uniqueLogs gymDb
   \<and> logsFor 0 ''2024-01-03'' gymDb = [gymLog 1 ''2024-01-03'' True 200]
   \<and> logHabitCompletion 300 jan3 ((logOn ''2024-01-03'' False)\<lparr>la_notes := Some ''sick''\<rparr>) gymDb
       = Inr \<lparr>habits = [gymHabit 0 1],
              habitLogs = [(gymLog 1 ''2024-01-03'' False 200)\<lparr>log_notes := Some ''sick''\<rparr>],
              calendarEvents = [], nextId = 2\<rparr>
   \<and> length (logsFor 0 ''2024-01-03''
        (run [LogHabitCompletion 300 jan3 (logOn ''2024-01-03'' False),
              LogHabitCompletion 400 jan3 (logOn ''2024-01-03'' True)] gymDb)) \<le> 1"
proof -
  have f: "logsFor 0 ''2024-01-03'' gymDb = [gymLog 1 ''2024-01-03'' True 200]"
    by (simp add: gymDb_eq logsFor_def gymLog_def)
  show ?thesis
    using logHabitCompletion_upsert [OF gymDb_unique,
        of "[LogHabitCompletion 300 jan3 (logOn ''2024-01-03'' False),
             LogHabitCompletion 400 jan3 (logOn ''2024-01-03'' True)]"]
      gymDb_unique f gymDb_undone
    by simp
qed

section \<open>C3: the best streak\<close>

lemma bestKept_refl: "bestKept d d"
  by (auto simp: bestKept_def)

lemma bestKept_trans: "bestKept d d1 \<Longrightarrow> bestKept d1 d2 \<Longrightarrow> bestKept d d2"
proof -
  assume a: "bestKept d d1" and b: "bestKept d1 d2"
  have n: "nextId d \<le> nextId d1" "nextId d1 \<le> nextId d2"
    using a b by (simp_all add: bestKept_def)
  have "\<exists>h \<in> set (habits d). habit_id h = habit_id h2 \<and> bestStreak h \<le> bestStreak h2"
    if h2: "h2 \<in> set (habits d2)" "habit_id h2 < nextId d" for h2
  proof -
    have "habit_id h2 < nextId d1" using h2(2) n(1) by simp
    then obtain h1 where h1: "h1 \<in> set (habits d1)" "habit_id h1 = habit_id h2"
        "bestStreak h1 \<le> bestStreak h2"
      using b h2(1) unfolding bestKept_def by blast
    have "habit_id h1 < nextId d" using h1(2) h2(2) by simp
    then obtain h where h: "h \<in> set (habits d)" "habit_id h = habit_id h1"
        "bestStreak h \<le> bestStreak h1"
      using a h1(1) unfolding bestKept_def by blast
    show ?thesis using h h1 by auto
  qed
  then show ?thesis using n by (simp add: bestKept_def)
qed

lemma bestKept_same_habits: "habits d' = habits d \<Longrightarrow> nextId d \<le> nextId d' \<Longrightarrow> bestKept d d'"
  by (auto simp: bestKept_def)

lemma distinctIds_same_habits:
  "habits d' = habits d \<Longrightarrow> nextId d \<le> nextId d' \<Longrightarrow> distinctIds d \<Longrightarrow> distinctIds d'"
  by (auto simp: distinctIds_def)

lemma streakInv_same_habits: "habits d' = habits d \<Longrightarrow> streakInv d' = streakInv d"
  by (simp add: streakInv_def)

lemma updateStreak_streakInv: "streakInv d \<Longrightarrow> streakInv (updateStreak today hid d)"
  by (auto simp: streakInv_def updateStreak_def Let_def split: option.splits)

lemma find_distinct_id:
  assumes "distinct (map habit_id hs)" and "find (\<lambda>h. habit_id h = hid) hs = Some hb"
    and "h \<in> set hs" and "habit_id h = hid"
  shows "h = hb"
proof -
  have "hb \<in> set hs" "habit_id hb = hid"
    using assms(2) by (auto simp: find_Some_iff)
  then show ?thesis using assms(1,3,4) by (metis distinct_map inj_onD)
qed

lemma updateStreak_result:
  assumes "find (\<lambda>h. habit_id h = hid) (habits d) = Some hb"
    and "h' \<in> set (habits (updateStreak today hid d))"
  shows "\<exists>h \<in> set (habits d).
           h' = (if habit_id h = hid
                 then h\<lparr>currentStreak := fst (streakLoop today (sortedLogs hid d) 0),
                        bestStreak := max (bestStreak hb)
                                        (fst (streakLoop today (sortedLogs hid d) 0))\<rparr>
                 else h)"
  using assms by (auto simp: updateStreak_def Let_def)

lemma updateStreak_bestKept:
  assumes "distinctIds d"
  shows "bestKept d (updateStreak today hid d)"
proof (cases "find (\<lambda>h. habit_id h = hid) (habits d)")
  case None
  then show ?thesis by (simp add: updateStreak_def bestKept_refl)
next
  case (Some hb)
  have "\<exists>h \<in> set (habits d). habit_id h = habit_id h' \<and> bestStreak h \<le> bestStreak h'"
    if mem: "h' \<in> set (habits (updateStreak today hid d))" for h'
  proof -
    obtain h where h: "h \<in> set (habits d)"
      "h' = (if habit_id h = hid
             then h\<lparr>currentStreak := fst (streakLoop today (sortedLogs hid d) 0),
                    bestStreak := max (bestStreak hb) (fst (streakLoop today (sortedLogs hid d) 0))\<rparr>
             else h)"
      using updateStreak_result [OF Some mem] by blast
    show ?thesis
    proof (cases "habit_id h = hid")
      case True
      have "distinct (map habit_id (habits d))" using assms by (simp add: distinctIds_def)
      then have "h = hb" using Some h(1) True by (rule find_distinct_id)
      then show ?thesis using h True by auto
    next
      case False
      then show ?thesis using h by auto
    qed
  qed
  then show ?thesis by (simp add: bestKept_def updateStreak_nextId)
qed

lemma updateStreak_distinctIds: "distinctIds (updateStreak today hid d) = distinctIds d"
proof -
  have "set (map habit_id (habits (updateStreak today hid d))) = set (map habit_id (habits d))"
    by (simp only: updateStreak_ids)
  then have "habit_id ` set (habits (updateStreak today hid d)) = habit_id ` set (habits d)"
    by simp
  then have "(\<forall>h \<in> set (habits (updateStreak today hid d)). habit_id h < n)
               = (\<forall>h \<in> set (habits d). habit_id h < n)" for n
    by (metis (no_types, lifting) image_iff)
  then show ?thesis
    by (simp add: distinctIds_def updateStreak_ids updateStreak_nextId)
qed

lemma stepOk_refl: "stepOk d d"
  by (simp add: stepOk_def bestKept_refl)

lemma createHabit_new:
  "\<exists>h. createHabit now args d = Inr (d\<lparr>habits := habits d @ [h], nextId := Suc (nextId d)\<rparr>)
       \<and> habit_id h = nextId d \<and> currentStreak h = 0 \<and> bestStreak h = 0"
proof -
  let ?h = "\<lparr>habit_id = nextId d, habit_userId = ch_userId args, name = ch_name args,
             habit_description = ch_description args, frequency = ch_frequency args,
             customDays = ch_customDays args, preferredTime = ch_preferredTime args,
             durationMinutes = ch_durationMinutes args,
             currentStreak = 0, bestStreak = 0, isActive = True,
             color = ch_color args, habit_createdAt = now\<rparr>"
  have "createHabit now args d = Inr (d\<lparr>habits := habits d @ [?h], nextId := Suc (nextId d)\<rparr>)"
    by (simp add: createHabit_def)
  moreover have "habit_id ?h = nextId d \<and> currentStreak ?h = 0 \<and> bestStreak ?h = 0"
    by simp
  ultimately show ?thesis by blast
qed

lemma createHabit_step:
  assumes "createHabit now args d = Inr d'"
  shows "stepOk d d'"
proof -
  obtain h where d': "habits d' = habits d @ [h]" "habit_id h = nextId d" "currentStreak h = 0"
      "bestStreak h = 0" "nextId d' = Suc (nextId d)"
    using assms createHabit_new [of now args d] by auto
  have 1: "streakInv d \<longrightarrow> streakInv d'"
    using d' by (auto simp: streakInv_def)
  have 2: "distinctIds d \<longrightarrow> distinctIds d'"
    using d' by (auto simp: distinctIds_def)
  have 3: "distinctIds d \<longrightarrow> bestKept d d'"
    using d' by (auto simp: bestKept_def distinctIds_def)
  show ?thesis using 1 2 3 by (simp add: stepOk_def)
qed

lemma map_step:
  assumes d': "habits d' = map f (habits d)" "nextId d' = nextId d"
    and f: "\<And>h. habit_id (f h) = habit_id h" "\<And>h. currentStreak (f h) = currentStreak h"
           "\<And>h. bestStreak (f h) = bestStreak h"
  shows "stepOk d d'"
proof -
  have ids: "map habit_id (habits d') = map habit_id (habits d)"
    by (simp add: d'(1) comp_def f(1))
  have 1: "streakInv d \<longrightarrow> streakInv d'"
    by (simp add: streakInv_def d'(1) f)
  have "(\<forall>h \<in> set (habits d'). habit_id h < n) = (\<forall>h \<in> set (habits d). habit_id h < n)" for n
    by (simp add: d'(1) f(1))
  then have 2: "distinctIds d \<longrightarrow> distinctIds d'"
    by (simp add: distinctIds_def ids d'(2))
  have 3: "bestKept d d'"
    unfolding bestKept_def
  proof (intro conjI ballI impI)
    show "nextId d \<le> nextId d'" by (simp add: d'(2))
  next
    fix h' assume "h' \<in> set (habits d')"
    then obtain h where "h \<in> set (habits d)" "h' = f h" by (auto simp: d'(1))
    then show "\<exists>h \<in> set (habits d). habit_id h = habit_id h' \<and> bestStreak h \<le> bestStreak h'"
      using f by (metis order_refl)
  qed
  show ?thesis using 1 2 3 by (simp add: stepOk_def)
qed

lemma updateHabit_step:
  assumes "updateHabit u d = Inr d'"
  shows "stepOk d d'"
proof (rule map_step)
  show "habits d' = map (\<lambda>h. if habit_id h = uh_habitId u then patchHabit u h else h) (habits d)"
    using assms by (auto simp: updateHabit_def split: if_splits)
  show "nextId d' = nextId d"
    using assms by (auto simp: updateHabit_def split: if_splits)
qed (simp_all add: patchHabit_def)

lemma deleteHabit_step:
  assumes "deleteHabit hid d = Inr d'"
  shows "stepOk d d'"
proof -
  have d': "habits d' = filter (\<lambda>h. habit_id h \<noteq> hid) (habits d)"
    using assms by (auto simp: deleteHabit_def Let_def deleteLogs_habits split: if_splits)
  have n: "nextId d' = nextId d"
    using assms by (auto simp: deleteHabit_def Let_def deleteLogs_nextId split: if_splits)
  have 1: "streakInv d \<longrightarrow> streakInv d'"
    by (simp add: streakInv_def d')
  have 2: "distinctIds d \<longrightarrow> distinctIds d'"
    by (simp add: distinctIds_def d' n distinct_map_filter)
  have 3: "bestKept d d'"
    by (auto simp: bestKept_def d' n)
  show ?thesis using 1 2 3 by (simp add: stepOk_def)
qed

lemma logHabitCompletion_step:
  assumes "logHabitCompletion now today a d = Inr d'"
  shows "stepOk d d'"
proof -
  obtain d1 where d1: "upsertLog now a d = Inr d1" "d' = updateStreak today (la_habitId a) d1"
    using assms by (auto simp: logHabitCompletion_def split: sum.splits)
  have fr: "habits d1 = habits d" "nextId d \<le> nextId d1"
    using upsertLog_frame [OF d1(1)] by simp_all
  have 1: "streakInv d \<longrightarrow> streakInv d'"
    using streakInv_same_habits [OF fr(1)] updateStreak_streakInv d1(2) by blast
  have 2: "distinctIds d \<longrightarrow> distinctIds d'"
    using distinctIds_same_habits [OF fr] updateStreak_distinctIds d1(2) by blast
  have 3: "distinctIds d \<longrightarrow> bestKept d d'"
  proof
    assume "distinctIds d"
    then have "distinctIds d1" using distinctIds_same_habits [OF fr] by blast
    then have "bestKept d1 d'" using updateStreak_bestKept d1(2) by blast
    moreover have "bestKept d d1" using bestKept_same_habits [OF fr] .
    ultimately show "bestKept d d'" using bestKept_trans by blast
  qed
  show ?thesis using 1 2 3 by (simp add: stepOk_def)
qed

lemma step_stepOk: "stepOk d (step m d)"
proof (cases "applyMutation m d")
  case (Inl e)
  then show ?thesis by (simp add: step_def commit_def stepOk_refl)
next
  case (Inr d')
  then have "stepOk d d'"
    by (cases m)
       (simp_all add: createHabit_step updateHabit_step deleteHabit_step logHabitCompletion_step)
  then show ?thesis using Inr by (simp add: step_def commit_def)
qed

lemma run_invariants:
  "streakInv d \<Longrightarrow> distinctIds d \<Longrightarrow>
     streakInv (run ms d) \<and> distinctIds (run ms d) \<and> bestKept d (run ms d)"
proof (induction ms arbitrary: d)
  case Nil
  then show ?case by (simp add: bestKept_refl)
next
  case (Cons m ms)
  have s: "streakInv (step m d)" "distinctIds (step m d)" "bestKept d (step m d)"
    using step_stepOk [of d m] Cons.prems by (simp_all add: stepOk_def)
  have "streakInv (run ms (step m d)) \<and> distinctIds (run ms (step m d))
         \<and> bestKept (step m d) (run ms (step m d))"
    using Cons.IH [OF s(1,2)] .
  then show ?case using s(3) bestKept_trans by auto
qed

text \<open>
  C3. From a store in which every habit has bestStreak \<ge> currentStreak and the ids are
  those the store gave out, as in the empty store, every sequence of the mutations of
  habits.ts leads to a store in which every habit has bestStreak \<ge> currentStreak, and a
  habit that is in the store before and after has a bestStreak that is not smaller after.
  A created habit starts with both streaks 0, and a recompute stores as bestStreak the
  maximum of the habit's old bestStreak and the new currentStreak.
\<close>

theorem bestStreak_invariant:
  assumes "streakInv d" and "distinctIds d"
  shows "streakInv (run ms d)
       \<and> (\<forall>h \<in> set (habits d). \<forall>h' \<in> set (habits (run ms d)).
             habit_id h' = habit_id h \<longrightarrow> bestStreak h \<le> bestStreak h')
       \<and> (\<exists>h. createHabit now args d = Inr (d\<lparr>habits := habits d @ [h], nextId := Suc (nextId d)\<rparr>)
               \<and> currentStreak h = 0 \<and> bestStreak h = 0)
       \<and> (\<forall>hb. find (\<lambda>h. habit_id h = hid) (habits d) = Some hb \<longrightarrow>
             (\<forall>h' \<in> set (habits (updateStreak today hid d)). habit_id h' = hid \<longrightarrow>
                bestStreak h' = max (bestStreak hb) (currentStreak h')))"
proof -
  have inv: "streakInv (run ms d)" and kept: "bestKept d (run ms d)"
    using run_invariants [OF assms] by simp_all
  have mono: "bestStreak h \<le> bestStreak h'"
    if h: "h \<in> set (habits d)" and h': "h' \<in> set (habits (run ms d))"
      and eq: "habit_id h' = habit_id h" for h h'
  proof -
    have "habit_id h' < nextId d" using assms(2) h eq by (simp add: distinctIds_def)
    then obtain h0 where h0: "h0 \<in> set (habits d)" "habit_id h0 = habit_id h'"
        "bestStreak h0 \<le> bestStreak h'"
      using kept h' unfolding bestKept_def by blast
    have "distinct (map habit_id (habits d))" using assms(2) by (simp add: distinctIds_def)
    then have "h0 = h" using h0(1,2) h eq by (metis distinct_map inj_onD)
    then show ?thesis using h0(3) by simp
  qed
  have new: "\<exists>h. createHabit now args d = Inr (d\<lparr>habits := habits d @ [h], nextId := Suc (nextId d)\<rparr>)
               \<and> currentStreak h = 0 \<and> bestStreak h = 0"
    using createHabit_new [of now args d] by blast
  have best: "bestStreak h' = max (bestStreak hb) (currentStreak h')"
    if f: "find (\<lambda>h. habit_id h = hid) (habits d) = Some hb"
      and h': "h' \<in> set (habits (updateStreak today hid d))" and i: "habit_id h' = hid" for hb h'
  proof -
    obtain h where h: "h \<in> set (habits d)"
      "h' = (if habit_id h = hid
             then h\<lparr>currentStreak := fst (streakLoop today (sortedLogs hid d) 0),
                    bestStreak := max (bestStreak hb) (fst (streakLoop today (sortedLogs hid d) 0))\<rparr>
             else h)"
      using updateStreak_result [OF f h'] by blast
    then have "habit_id h = hid" using i by (auto split: if_splits)
    then show ?thesis using h(2) by simp
  qed
  show ?thesis using inv mono new best by blast
qed

text \<open>From the empty store: the habit is created, logged on 3 January and then, on the same
  day, logged for 4 January: the current streak falls from 1 to 0 and the best stays 1.\<close>

theorem bestStreak_invariant_witness:
  "streakInv gymDb \<and> distinctIds gymDb
   \<and> map bestStreak (habits gymDb) = [1]
   \<and> run [LogHabitCompletion 300 jan3 (logOn ''2024-01-04'' True)] gymDb
       = \<lparr>habits = [gymHabit 0 1],
          habitLogs = [gymLog 1 ''2024-01-03'' True 200, gymLog 2 ''2024-01-04'' True 300],
          calendarEvents = [], nextId = 3\<rparr>
   \<and> streakInv (run [LogHabitCompletion 300 jan3 (logOn ''2024-01-04'' True)] gymDb)
   \<and> bestStreak (gymHabit 0 1) = 1"
proof -
  have 1: "streakInv gymDb"
    by (simp add: gymDb_eq streakInv_def gymHabit_def)
  have 2: "distinctIds gymDb"
    by (simp add: gymDb_eq distinctIds_def gymHabit_def)
  have 3: "map bestStreak (habits gymDb) = [1]"
    by (simp add: gymDb_eq gymHabit_def)
  show ?thesis
    using bestStreak_invariant
      [OF 1 2, of "[LogHabitCompletion 300 jan3 (logOn ''2024-01-04'' True)]"] 1 2 3 gymDb_future
    by (simp add: gymHabit_def)
qed

section \<open>C7 and C1: the walk from today\<close>

lemma localeCompare_le: "(localeCompare a b \<le> 0) = (a \<le> b)"
  by (auto simp: localeCompare_def)

lemma set_insertBy: "set (insertBy cmp x ys) = insert x (set ys)"
  by (induction ys) auto

lemma length_insertBy: "length (insertBy cmp x ys) = Suc (length ys)"
  by (induction ys) auto

lemma sorted_insertBy:
  "sorted_wrt (\<lambda>a b. log_date b \<le> log_date a) ys \<Longrightarrow>
   sorted_wrt (\<lambda>a b. log_date b \<le> log_date a)
     (insertBy (\<lambda>a b. localeCompare (log_date b) (log_date a)) x ys)"
  by (induction ys) (auto simp: set_insertBy localeCompare_le)

lemma set_sortBy: "set (sortBy cmp xs) = set xs"
  by (induction xs) (simp_all add: sortBy_def set_insertBy)

lemma length_sortBy: "length (sortBy cmp xs) = length xs"
  by (induction xs) (simp_all add: sortBy_def length_insertBy)

lemma sorted_sortBy:
  "sorted_wrt (\<lambda>a b. log_date b \<le> log_date a)
     (sortBy (\<lambda>a b. localeCompare (log_date b) (log_date a)) xs)"
  by (induction xs) (simp_all add: sortBy_def sorted_insertBy)

lemma set_sortedLogs: "set (sortedLogs hid d) = {l \<in> set (habitLogs d). habitId l = hid}"
  by (simp add: sortedLogs_def set_sortBy)

lemma sortedLogs_first_is_latest:
  assumes "sortedLogs hid d = lg # others" and "l \<in> set (habitLogs d)" and "habitId l = hid"
  shows "log_date l \<le> log_date lg"
proof -
  have "sorted_wrt (\<lambda>a b. log_date b \<le> log_date a) (lg # others)"
    using sorted_sortBy [of "filter (\<lambda>l. habitId l = hid) (habitLogs d)"] assms(1)
    by (simp add: sortedLogs_def)
  moreover have "l \<in> set (lg # others)"
    using assms set_sortedLogs [of hid d] by simp
  ultimately show ?thesis by auto
qed

lemma streakLoop_first_differs:
  "log_date lg \<noteq> toISODate today \<Longrightarrow> streakLoop today (lg # others) 0 = (0, MissingDay)"
  by simp

text \<open>
  C7. For a habit whose logs are dated with calendar days: when the first log in
  descending date order has a date other than today's, and in particular when some log of
  the habit is dated after today, the loop leaves through the missing-day branch in its
  first iteration with a count of 0, and the recompute stores currentStreak 0 for the
  habit, whatever the logs behind the first are. The loop itself does so on every list
  whose first log is not dated today, in whatever order the sort has put it.
\<close>

theorem first_log_not_today_resets_streak:
  assumes "\<forall>l \<in> set (habitLogs d). habitId l = hid \<longrightarrow> calendarDay (log_date l)"
    and "(\<exists>lg others. sortedLogs hid d = lg # others \<and> log_date lg \<noteq> toISODate today)
         \<or> (\<exists>l \<in> set (habitLogs d). habitId l = hid \<and> toISODate today < log_date l)"
  shows "streakLoop today (sortedLogs hid d) 0 = (0, MissingDay)
       \<and> (\<forall>h \<in> set (habits (updateStreak today hid d)). habit_id h = hid \<longrightarrow> currentStreak h = 0)
       \<and> (\<forall>lg others. log_date lg \<noteq> toISODate today \<longrightarrow>
             streakLoop today (lg # others) 0 = (0, MissingDay))"
proof -
  have first: "\<exists>lg others. sortedLogs hid d = lg # others \<and> log_date lg \<noteq> toISODate today"
    using assms(2)
  proof
    assume "\<exists>lg others. sortedLogs hid d = lg # others \<and> log_date lg \<noteq> toISODate today"
    then show ?thesis .
  next
    assume "\<exists>l \<in> set (habitLogs d). habitId l = hid \<and> toISODate today < log_date l"
    then obtain l where l: "l \<in> set (habitLogs d)" "habitId l = hid" "toISODate today < log_date l"
      by blast
    then have "l \<in> set (sortedLogs hid d)" by (simp add: set_sortedLogs)
    then obtain lg others where s: "sortedLogs hid d = lg # others"
      by (cases "sortedLogs hid d") auto
    have "log_date l \<le> log_date lg"
      using sortedLogs_first_is_latest [OF s l(1,2)] .
    then have "log_date lg \<noteq> toISODate today" using l(3) by auto
    then show ?thesis using s by blast
  qed
  then have loop: "streakLoop today (sortedLogs hid d) 0 = (0, MissingDay)"
    using streakLoop_first_differs by auto
  have "currentStreak h' = 0"
    if h': "h' \<in> set (habits (updateStreak today hid d))" and i: "habit_id h' = hid" for h'
  proof (cases "find (\<lambda>h. habit_id h = hid) (habits d)")
    case None
    then have "updateStreak today hid d = d" by (simp add: updateStreak_def)
    then have "h' \<in> set (habits d)" using h' by simp
    then show ?thesis using None i by (simp add: find_habit_None)
  next
    case (Some hb)
    obtain h where h: "h \<in> set (habits d)"
      "h' = (if habit_id h = hid
             then h\<lparr>currentStreak := fst (streakLoop today (sortedLogs hid d) 0),
                    bestStreak := max (bestStreak hb) (fst (streakLoop today (sortedLogs hid d) 0))\<rparr>
             else h)"
      using updateStreak_result [OF Some h'] by blast
    then have "habit_id h = hid" using i by (auto split: if_splits)
    then show ?thesis using h(2) loop by simp
  qed
  moreover have "\<forall>lg others. log_date lg \<noteq> toISODate today \<longrightarrow>
             streakLoop today (lg # others) 0 = (0, MissingDay)"
    by simp
  ultimately show ?thesis using loop by blast
qed

lemma futureDb_eq:
  "futureDb = \<lparr>habits = [gymHabit 0 1],
      habitLogs = [gymLog 1 ''2024-01-03'' True 200, gymLog 2 ''2024-01-04'' True 300],
      calendarEvents = [], nextId = 3\<rparr>"
  by (simp only: futureDb_def gymDb_future)

lemma futureDb_sorted:
  "sortedLogs 0 futureDb = [gymLog 2 ''2024-01-04'' True 300, gymLog 1 ''2024-01-03'' True 200]"
  by (simp add: futureDb_eq sortedLogs_def sortBy_def localeCompare_def gymLog_def)

lemma run_after_future_log: "streakLoop jan3 [gymLog 1 ''2024-01-03'' True 200] 0 = (1, LoopEnd)"
  by (simp add: gymLog_def iso_jan3)

lemma iso_jan4: "toISODate (UTCDate 2024 1 4) = ''2024-01-04''"
  by code_simp

lemma calendarDay_jan3: "calendarDay ''2024-01-03''"
proof -
  have "inRange jan3"
    by (simp add: jan3_def inRange_def validDate_def daysInMonth_def)
  then show ?thesis
    unfolding calendarDay_def using iso_jan3 [symmetric] by blast
qed

lemma calendarDay_jan4: "calendarDay ''2024-01-04''"
proof -
  have "inRange (UTCDate 2024 1 4)"
    by (simp add: inRange_def validDate_def daysInMonth_def)
  then show ?thesis
    unfolding calendarDay_def using iso_jan4 [symmetric] by blast
qed

text \<open>The gym habit is done on 3 January and has a log for 4 January, both calendar days;
  on 3 January the first log in descending order is the one of the 4th, the loop stops
  there with 0, though the log behind it is a completed run of one day that ends today.\<close>

theorem first_log_not_today_resets_streak_witness:
  "map log_date (habitLogs futureDb) = [''2024-01-03'', ''2024-01-04'']
   \<and> calendarDay ''2024-01-03'' \<and> calendarDay ''2024-01-04''
   \<and> sortedLogs 0 futureDb = [gymLog 2 ''2024-01-04'' True 300, gymLog 1 ''2024-01-03'' True 200]
   \<and> log_date (gymLog 2 ''2024-01-04'' True 300) \<noteq> toISODate jan3
   \<and> toISODate jan3 < log_date (gymLog 2 ''2024-01-04'' True 300)
   \<and> streakLoop jan3 (sortedLogs 0 futureDb) 0 = (0, MissingDay)
   \<and> streakLoop jan3 (tl (sortedLogs 0 futureDb)) 0 = (1, LoopEnd)
   \<and> map currentStreak (habits (updateStreak jan3 0 futureDb)) = [0]"
proof -
  have c: "\<forall>l \<in> set (habitLogs futureDb). habitId l = 0 \<longrightarrow> calendarDay (log_date l)"
    by (simp add: futureDb_eq gymLog_def calendarDay_jan3 calendarDay_jan4)
  have d: "log_date (gymLog 2 ''2024-01-04'' True 300) \<noteq> toISODate jan3"
    by (simp add: gymLog_def iso_jan3)
  have a: "toISODate jan3 < log_date (gymLog 2 ''2024-01-04'' True 300)"
    by (simp add: gymLog_def iso_jan3)
  have h: "(\<exists>lg others. sortedLogs 0 futureDb = lg # others \<and> log_date lg \<noteq> toISODate jan3)
         \<or> (\<exists>l \<in> set (habitLogs futureDb). habitId l = 0 \<and> toISODate jan3 < log_date l)"
    using futureDb_sorted d by simp
  have g: "map log_date (habitLogs futureDb) = [''2024-01-03'', ''2024-01-04'']"
    by (simp add: futureDb_eq gymLog_def)
  have u: "habits (updateStreak jan3 0 futureDb) = [gymHabit 0 1]"
    using first_log_not_today_resets_streak [OF c h]
    by (simp add: updateStreak_def futureDb_eq gymHabit_def Let_def)
  show ?thesis
    using first_log_not_today_resets_streak [OF c h] futureDb_sorted d a u g run_after_future_log
      calendarDay_jan3 calendarDay_jan4
    by (simp add: gymHabit_def)
qed

subsection \<open>Dates as strings\<close>


lemma append_less_same_length:
  "length xs = length xs' \<Longrightarrow>
     ((xs @ ys :: 'a::linorder list) < xs' @ ys') = (xs < xs' \<or> xs = xs' \<and> ys < ys')"
  by (induction xs xs' rule: list_induct2) auto

lemma length_pad: "length (pad w n) = w"
  by (induction w n rule: pad.induct) auto

lemma digits_nth: "\<forall>k \<in> set [0..<10]. (of_char (''0123456789'' ! k) :: nat) = 48 + k"
  by code_simp

lemma digit_code: "(of_char (digit n) :: nat) = 48 + n mod 10"
proof -
  have "n mod 10 \<in> set [0..<10]" by simp
  then show ?thesis unfolding digit_def using digits_nth by blast
qed

lemma lex_less:
  "(ra::nat) < 10 \<Longrightarrow> rb < 10 \<Longrightarrow> (qa < qb \<or> qa = qb \<and> ra < rb) = (10 * qa + ra < 10 * qb + rb)"
  by auto

lemma divmod_less:
  "((a::nat) div 10 < b div 10 \<or> a div 10 = b div 10 \<and> a mod 10 < b mod 10) = (a < b)"
proof -
  have "(a div 10 < b div 10 \<or> a div 10 = b div 10 \<and> a mod 10 < b mod 10)
        = (10 * (a div 10) + a mod 10 < 10 * (b div 10) + b mod 10)"
    by (rule lex_less) simp_all
  then show ?thesis by simp
qed

lemma digit_less: "(digit a < digit b) = (a mod 10 < b mod 10)"
  by (simp add: less_char_def digit_code)

lemma digit_eq: "(digit a = digit b) = (a mod 10 = b mod 10)"
proof
  assume "digit a = digit b"
  then have "(of_char (digit a) :: nat) = of_char (digit b)" by simp
  then show "a mod 10 = b mod 10" by (simp add: digit_code)
next
  assume "a mod 10 = b mod 10"
  then show "digit a = digit b" by (simp add: digit_def)
qed

lemma pad_less:
  "a < 10 ^ w \<Longrightarrow> b < 10 ^ w \<Longrightarrow> (pad w a < pad w b) = (a < b)"
proof (induction w arbitrary: a b)
  case 0
  then show ?case by simp
next
  case (Suc w)
  have a: "a div 10 < 10 ^ w" and b: "b div 10 < 10 ^ w"
    using Suc.prems by (simp_all add: less_mult_imp_div_less mult.commute)
  have eq: "(pad w (a div 10) = pad w (b div 10)) = (a div 10 = b div 10)"
    using Suc.IH [OF a b] Suc.IH [OF b a] by (metis less_irrefl linorder_neqE_nat)
  have "(pad (Suc w) a < pad (Suc w) b) =
          (pad w (a div 10) < pad w (b div 10) \<or>
           pad w (a div 10) = pad w (b div 10) \<and> [digit a] < [digit b])"
    by (simp add: append_less_same_length length_pad)
  also have "\<dots> = (a div 10 < b div 10 \<or> a div 10 = b div 10 \<and> a mod 10 < b mod 10)"
    by (simp add: Suc.IH [OF a b] eq digit_less)
  also have "\<dots> = (a < b)"
    by (rule divmod_less)
  finally show ?case .
qed

lemma pad_eq:
  assumes "a < 10 ^ w" and "b < 10 ^ w"
  shows "(pad w a = pad w b) = (a = b)"
  using pad_less [OF assms] pad_less [OF assms(2,1)] by (metis less_irrefl linorder_neqE_nat)

lemma daysInMonth_bounds: "28 \<le> daysInMonth y m \<and> daysInMonth y m \<le> 31"
  by (simp add: daysInMonth_def)

lemma toISODate_inRange:
  "inRange c \<Longrightarrow> toISODate c = pad 4 (nat (year c)) @ ''-'' @ pad 2 (month c) @ ''-'' @ pad 2 (day c)"
  by (cases c) (simp add: inRange_def isoYear_def)

lemma inRange_bounds:
  assumes "inRange c"
  shows "nat (year c) < 10 ^ 4" "month c < 10 ^ 2" "day c < 10 ^ 2"
proof -
  have "day c \<le> 31" using assms daysInMonth_bounds [of "year c" "month c"]
    by (simp add: inRange_def validDate_def)
  then show "day c < 10 ^ 2" by simp
  show "month c < 10 ^ 2" using assms by (simp add: inRange_def validDate_def)
  have "0 \<le> year c" "year c \<le> 9999" using assms by (simp_all add: inRange_def)
  then show "nat (year c) < 10 ^ 4" by simp
qed

lemma toISODate_less:
  assumes "inRange c" and "inRange c'"
  shows "(toISODate c < toISODate c') = before c c'"
proof -
  have y: "(nat (year c) < nat (year c')) = (year c < year c')"
          "(nat (year c) = nat (year c')) = (year c = year c')"
    using assms by (auto simp: inRange_def)
  note b = inRange_bounds [OF assms(1)] inRange_bounds [OF assms(2)]
  have "(toISODate c < toISODate c') =
        (pad 4 (nat (year c)) < pad 4 (nat (year c')) \<or>
         pad 4 (nat (year c)) = pad 4 (nat (year c')) \<and>
         (pad 2 (month c) < pad 2 (month c') \<or>
          pad 2 (month c) = pad 2 (month c') \<and> pad 2 (day c) < pad 2 (day c')))"
    by (simp add: toISODate_inRange assms append_less_same_length length_pad)
  also have "\<dots> = before c c'"
    unfolding before_def
    by (simp only: pad_less [OF b(1) b(4)] pad_eq [OF b(1) b(4)] pad_less [OF b(2) b(5)]
        pad_eq [OF b(2) b(5)] pad_less [OF b(3) b(6)] y)
  finally show ?thesis .
qed

lemma toISODate_inj:
  assumes "inRange c" and "inRange c'"
  shows "(toISODate c = toISODate c') = (c = c')"
proof -
  have y: "(nat (year c) = nat (year c')) = (year c = year c')"
    using assms by (auto simp: inRange_def)
  have "(toISODate c = toISODate c') =
        (pad 4 (nat (year c)) = pad 4 (nat (year c')) \<and> pad 2 (month c) = pad 2 (month c')
          \<and> pad 2 (day c) = pad 2 (day c'))"
    by (simp add: toISODate_inRange assms length_pad)
  also have "\<dots> = (year c = year c' \<and> month c = month c' \<and> day c = day c')"
    using inRange_bounds [OF assms(1)] inRange_bounds [OF assms(2)]
    by (simp only: pad_eq y)
  also have "\<dots> = (c = c')"
    by (cases c; cases c') simp
  finally show ?thesis .
qed

subsection \<open>The day before\<close>


lemma setDatePrev_valid:
  assumes "validDate c"
  shows "validDate (setDatePrev c) \<and> before (setDatePrev c) c"
proof (cases c)
  case (UTCDate y m d)
  have b: "1 \<le> m" "m \<le> 12" "1 \<le> d" "d \<le> daysInMonth y m"
    using assms UTCDate by (simp_all add: validDate_def)
  consider "1 < d" | "d = 1" "1 < m" | "d = 1" "m = 1" using b by linarith
  then show ?thesis
  proof cases
    case 1
    then show ?thesis using b UTCDate by (auto simp: validDate_def before_def)
  next
    case 2
    have "1 \<le> daysInMonth y (m - 1)" using daysInMonth_bounds [of y "m - 1"] by linarith
    moreover have "1 \<le> m - 1" "m - 1 \<le> 12" "m - 1 < m" using 2 b by linarith+
    ultimately show ?thesis using 2 UTCDate by (simp add: validDate_def before_def)
  next
    case 3
    have "daysInMonth (y - 1) 12 = 31" by (simp add: daysInMonth_def)
    then show ?thesis using 3 UTCDate by (simp add: validDate_def before_def)
  qed
qed

lemma nothing_between:
  assumes "validDate c" and "validDate c'" and "before c' c"
  shows "c' = setDatePrev c \<or> before c' (setDatePrev c)"
proof (cases c)
  case c: (UTCDate y m d)
  show ?thesis
  proof (cases c')
    case c': (UTCDate y' m' d')
    have b: "1 \<le> m" "m \<le> 12" "1 \<le> d" "d \<le> daysInMonth y m"
      using assms(1) c by (simp_all add: validDate_def)
    have b': "1 \<le> m'" "m' \<le> 12" "1 \<le> d'" "d' \<le> daysInMonth y' m'"
      using assms(2) c' by (simp_all add: validDate_def)
    have lt: "y' < y \<or> y' = y \<and> (m' < m \<or> m' = m \<and> d' < d)"
      using assms(3) c c' by (simp add: before_def)
    consider "1 < d" | "d = 1" "1 < m" | "d = 1" "m = 1" using b by linarith
    then show ?thesis
    proof cases
      case 1
      then show ?thesis using lt c c' by (auto simp: before_def)
    next
      case 2
      have p: "setDatePrev c = UTCDate y (m - 1) (daysInMonth y (m - 1))"
        using 2 c by simp
      consider "y' < y" | "y' = y" "m' < m - 1" | "y' = y" "m' = m - 1"
        using lt 2 b' by linarith
      then show ?thesis
      proof cases
        case 1
        then show ?thesis using p c' by (simp add: before_def)
      next
        case 2
        then show ?thesis using p c' by (simp add: before_def)
      next
        case 3
        have "d' \<le> daysInMonth y (m - 1)" using b'(4) 3 by simp
        then have "d' = daysInMonth y (m - 1) \<or> d' < daysInMonth y (m - 1)" by linarith
        then show ?thesis using 3 p c' by (auto simp: before_def)
      qed
    next
      case 3
      have "d' \<le> 31" using b'(4) daysInMonth_bounds [of y' m'] by linarith
      then show ?thesis using 3 lt b' c c' by (auto simp: before_def)
    qed
  qed
qed

lemma before_year: "before c' c \<Longrightarrow> year c' \<le> year c"
  by (auto simp: before_def)

lemma earlier_day_not_after_previous:
  assumes c: "inRange c" and c': "inRange c'" and lt: "toISODate c' < toISODate c"
  shows "inRange (setDatePrev c) \<and> toISODate c' \<le> toISODate (setDatePrev c)"
proof -
  have bef: "before c' c" using toISODate_less [OF c' c] lt by simp
  have v: "validDate (setDatePrev c)" "before (setDatePrev c) c"
    using setDatePrev_valid c by (simp_all add: inRange_def)
  have dis: "c' = setDatePrev c \<or> before c' (setDatePrev c)"
    using nothing_between c c' bef by (simp add: inRange_def)
  have "year c' \<le> year (setDatePrev c)"
    using dis before_year by auto
  moreover have "year (setDatePrev c) \<le> year c" using v(2) before_year by blast
  ultimately have r: "inRange (setDatePrev c)"
    using v(1) c c' by (simp add: inRange_def)
  have "toISODate c' \<le> toISODate (setDatePrev c)"
    using dis toISODate_less [OF c' r] by (auto simp: less_le)
  then show ?thesis using r by simp
qed

lemma iso_year0: "toISODate (UTCDate 0 1 1) = ''0000-01-01''"
  by code_simp

lemma iso_year_minus1: "toISODate (UTCDate (- 1) 12 31) = ''-000001-12-31''"
  by code_simp

lemma previous_day_is_earlier:
  assumes c: "inRange c"
  shows "toISODate (setDatePrev c) < toISODate c"
proof -
  have v: "validDate (setDatePrev c)" "before (setDatePrev c) c"
    using setDatePrev_valid c by (simp_all add: inRange_def)
  show ?thesis
  proof (cases "0 \<le> year (setDatePrev c)")
    case True
    moreover have "year (setDatePrev c) \<le> year c" using v(2) before_year by blast
    ultimately have "inRange (setDatePrev c)" using v(1) c by (simp add: inRange_def)
    then show ?thesis using toISODate_less c v(2) by simp
  next
    case False
    obtain y m d where cd: "c = UTCDate y m d" by (cases c)
    have "0 \<le> y" using c cd by (simp add: inRange_def)
    then have "y = 0 \<and> \<not> 1 < d \<and> \<not> 1 < m" using False cd by (auto split: if_splits)
    moreover have "1 \<le> d" "1 \<le> m" using c cd by (simp_all add: inRange_def validDate_def)
    ultimately have e: "c = UTCDate 0 1 1" using cd by simp
    have p: "setDatePrev (UTCDate 0 1 1) = UTCDate (- 1) 12 31" by simp
    have "(''-000001-12-31'' :: string) < ''0000-01-01''" by simp
    then show ?thesis by (simp only: e p iso_year0 iso_year_minus1)
  qed
qed

subsection \<open>The loop and the unbroken run\<close>

lemma distinct_dates_sortBy:
  assumes "distinct (map log_date xs)"
  shows "distinct (map log_date (sortBy cmp xs))"
proof (rule card_distinct)
  have "card (set (map log_date (sortBy cmp xs))) = card (set (map log_date xs))"
    by (simp add: set_sortBy)
  also have "\<dots> = length (map log_date xs)" using assms by (rule distinct_card)
  finally show "card (set (map log_date (sortBy cmp xs))) = length (map log_date (sortBy cmp xs))"
    by (simp add: length_sortBy)
qed

lemma strictly_sorted:
  "sorted_wrt (\<lambda>a b. log_date b \<le> log_date a) xs \<Longrightarrow> distinct (map log_date xs) \<Longrightarrow>
   sorted_wrt (\<lambda>a b. log_date b < log_date a) xs"
  by (induction xs) (auto simp: less_le image_iff)

lemma filter_distinct_key:
  "distinct (map f xs) \<Longrightarrow> x \<in> set xs \<Longrightarrow> filter (\<lambda>y. f y = f x) xs = [x]"
proof (induction xs)
  case Nil
  then show ?case by simp
next
  case (Cons a xs)
  show ?case
  proof (cases "x = a")
    case True
    have "filter (\<lambda>y. f y = f a) xs = []"
      using Cons.prems(1) by (auto simp: filter_empty_conv image_iff)
    then show ?thesis using True by simp
  next
    case False
    then have "x \<in> set xs" using Cons.prems(2) by simp
    moreover have "f a \<noteq> f x" using Cons.prems(1) \<open>x \<in> set xs\<close> by auto
    ultimately show ?thesis using Cons by simp
  qed
qed

lemma completedOn_none:
  "\<forall>l \<in> set logs. log_date l \<noteq> s \<Longrightarrow> completedOn logs s = False"
proof -
  assume "\<forall>l \<in> set logs. log_date l \<noteq> s"
  then have "filter (\<lambda>l. log_date l = s) logs = []" by (simp add: filter_empty_conv)
  then show ?thesis by (simp add: completedOn_def)
qed

lemma completedOn_one:
  "distinct (map log_date logs) \<Longrightarrow> lg \<in> set logs \<Longrightarrow>
     completedOn logs (log_date lg) = log_completed lg"
  by (simp add: completedOn_def filter_distinct_key)

lemma unbrokenRun_none:
  "\<forall>l \<in> set logs. log_date l \<noteq> toISODate c \<Longrightarrow> unbrokenRun k logs c = 0"
  by (cases k) (simp_all add: completedOn_none)

lemma streakLoop_is_run:
  assumes "sorted_wrt (\<lambda>a b. log_date b < log_date a) rest"
    and "\<forall>l \<in> set logs. calendarDay (log_date l)"
    and "distinct (map log_date logs)"
    and "\<forall>l \<in> set logs. (l \<in> set rest) = (log_date l \<le> toISODate c)"
    and "set rest \<subseteq> set logs"
    and "rest \<noteq> [] \<longrightarrow> inRange c"
    and "length rest \<le> k"
  shows "fst (streakLoop c rest n) = n + unbrokenRun k logs c"
  using assms
proof (induction rest arbitrary: c n k)
  case Nil
  have "\<forall>l \<in> set logs. log_date l \<noteq> toISODate c"
    using Nil.prems(4) by auto
  then show ?case by (simp add: unbrokenRun_none)
next
  case (Cons lg rest)
  have c: "inRange c" using Cons.prems(6) by simp
  have lg: "lg \<in> set logs" using Cons.prems(5) by simp
  have below: "\<forall>l \<in> set rest. log_date l < log_date lg"
    using Cons.prems(1) by simp
  show ?case
  proof (cases "log_date lg = toISODate c")
    case False
    have "log_date lg \<le> toISODate c" using Cons.prems(4) lg by auto
    then have lt: "log_date lg < toISODate c" using False by simp
    have "\<forall>l \<in> set logs. log_date l \<noteq> toISODate c"
    proof
      fix l assume l: "l \<in> set logs"
      show "log_date l \<noteq> toISODate c"
      proof
        assume e: "log_date l = toISODate c"
        then have "l \<in> set (lg # rest)" using Cons.prems(4) l by simp
        then have "log_date l \<le> log_date lg" using below by (auto simp: less_le)
        then show False using e lt by simp
      qed
    qed
    then have "unbrokenRun k logs c = 0" by (rule unbrokenRun_none)
    then show ?thesis using False by simp
  next
    case True
    obtain k' where k: "k = Suc k'" "length rest \<le> k'"
      using Cons.prems(7) by (cases k) simp_all
    have on: "completedOn logs (toISODate c) = log_completed lg"
      using completedOn_one [OF Cons.prems(3) lg] True by simp
    show ?thesis
    proof (cases "log_completed lg")
      case False
      then show ?thesis using True on k by simp
    next
      case compl: True
      have earlier: "toISODate (setDatePrev c) < toISODate c"
        using previous_day_is_earlier [OF c] .
      have mem: "\<forall>l \<in> set logs. (l \<in> set rest) = (log_date l \<le> toISODate (setDatePrev c))"
      proof
        fix l assume l: "l \<in> set logs"
        show "(l \<in> set rest) = (log_date l \<le> toISODate (setDatePrev c))"
        proof
          assume "l \<in> set rest"
          then have "log_date l < toISODate c" using below True by simp
          moreover obtain c' where "inRange c'" "log_date l = toISODate c'"
            using Cons.prems(2) l by (auto simp: calendarDay_def)
          ultimately show "log_date l \<le> toISODate (setDatePrev c)"
            using earlier_day_not_after_previous [OF c, of c'] by simp
        next
          assume "log_date l \<le> toISODate (setDatePrev c)"
          then have lt: "log_date l < toISODate c" using earlier by simp
          then have "l \<in> set (lg # rest)" using Cons.prems(4) l by simp
          moreover have "l \<noteq> lg" using lt True by auto
          ultimately show "l \<in> set rest" by simp
        qed
      qed
      have rng: "rest \<noteq> [] \<longrightarrow> inRange (setDatePrev c)"
      proof
        assume "rest \<noteq> []"
        then obtain l where l: "l \<in> set rest" by (cases rest) auto
        then have "log_date l < toISODate c" using below True by simp
        moreover have "l \<in> set logs" using l Cons.prems(5) by auto
        then obtain c' where "inRange c'" "log_date l = toISODate c'"
          using Cons.prems(2) by (auto simp: calendarDay_def)
        ultimately show "inRange (setDatePrev c)"
          using earlier_day_not_after_previous [OF c, of c'] by simp
      qed
      have "fst (streakLoop (setDatePrev c) rest (n + 1)) = (n + 1) + unbrokenRun k' logs (setDatePrev c)"
      proof (rule Cons.IH)
        show "sorted_wrt (\<lambda>a b. log_date b < log_date a) rest" using Cons.prems(1) by simp
        show "set rest \<subseteq> set logs" using Cons.prems(5) by simp
      qed (use Cons.prems(2,3) mem rng k(2) in simp_all)
      then show ?thesis using True compl on k by simp
    qed
  qed
qed

lemma streakLoop_counts_unbroken_run:
  assumes "inRange today"
    and "\<forall>l \<in> set logs. calendarDay (log_date l)"
    and "distinct (map log_date logs)"
    and "\<forall>l \<in> set logs. log_date l \<le> toISODate today"
  shows "fst (streakLoop today (sortBy (\<lambda>a b. localeCompare (log_date b) (log_date a)) logs) 0) = streakSpec logs today"
proof -
  let ?sorted = "sortBy (\<lambda>a b. localeCompare (log_date b) (log_date a)) logs"
  have "sorted_wrt (\<lambda>a b. log_date b < log_date a) ?sorted"
    using sorted_sortBy distinct_dates_sortBy [OF assms(3)] by (rule strictly_sorted)
  then have "fst (streakLoop today ?sorted 0) = 0 + unbrokenRun (length logs) logs today"
  proof (rule streakLoop_is_run)
    show "\<forall>l \<in> set logs. (l \<in> set ?sorted) = (log_date l \<le> toISODate today)"
      using assms(4) by (simp add: set_sortBy)
  qed (use assms in \<open>simp_all add: set_sortBy length_sortBy\<close>)
  then show ?thesis by (simp add: streakSpec_def)
qed

text \<open>Under the same conditions the bound of the walk in \<open>streakSpec\<close> is large enough: a
  larger one finds the same run.\<close>

lemma unbrokenRun_bound_is_enough:
  assumes "inRange today"
    and "\<forall>l \<in> set logs. calendarDay (log_date l)"
    and "distinct (map log_date logs)"
    and "\<forall>l \<in> set logs. log_date l \<le> toISODate today"
    and "length logs \<le> k"
  shows "unbrokenRun k logs today = streakSpec logs today"
proof -
  let ?sorted = "sortBy (\<lambda>a b. localeCompare (log_date b) (log_date a)) logs"
  have "sorted_wrt (\<lambda>a b. log_date b < log_date a) ?sorted"
    using sorted_sortBy distinct_dates_sortBy [OF assms(3)] by (rule strictly_sorted)
  then have "fst (streakLoop today ?sorted 0) = 0 + unbrokenRun k logs today"
  proof (rule streakLoop_is_run)
    show "\<forall>l \<in> set logs. (l \<in> set ?sorted) = (log_date l \<le> toISODate today)"
      using assms(4) by (simp add: set_sortBy)
  qed (use assms in \<open>simp_all add: set_sortBy length_sortBy\<close>)
  then show ?thesis
    using streakLoop_counts_unbroken_run [OF assms(1-4)] by simp
qed

text \<open>Where the recompute computes the run of the specification: when the habit's logs
  carry calendar days, no two of them the same day, and none a day after today, the stored
  currentStreak is the length of the unbroken completed run that ends today.\<close>

lemma updateStreak_counts_unbroken_run:
  assumes "inRange today"
    and "\<forall>l \<in> set (habitLogs d). habitId l = hid \<longrightarrow> calendarDay (log_date l)"
    and "distinct (map log_date (filter (\<lambda>l. habitId l = hid) (habitLogs d)))"
    and "\<forall>l \<in> set (habitLogs d). habitId l = hid \<longrightarrow> log_date l \<le> toISODate today"
    and "h' \<in> set (habits (updateStreak today hid d))" and "habit_id h' = hid"
  shows "currentStreak h' = streakSpec (filter (\<lambda>l. habitId l = hid) (habitLogs d)) today"
proof -
  let ?logs = "filter (\<lambda>l. habitId l = hid) (habitLogs d)"
  have loop: "fst (streakLoop today (sortedLogs hid d) 0) = streakSpec ?logs today"
    unfolding sortedLogs_def
    using assms(1-4) by (intro streakLoop_counts_unbroken_run) simp_all
  show ?thesis
  proof (cases "find (\<lambda>h. habit_id h = hid) (habits d)")
    case None
    then have "updateStreak today hid d = d" by (simp add: updateStreak_def)
    then have "h' \<in> set (habits d)" using assms(5) by simp
    then show ?thesis using None assms(6) by (simp add: find_habit_None)
  next
    case (Some hb)
    obtain h where h: "h \<in> set (habits d)"
      "h' = (if habit_id h = hid
             then h\<lparr>currentStreak := fst (streakLoop today (sortedLogs hid d) 0),
                    bestStreak := max (bestStreak hb) (fst (streakLoop today (sortedLogs hid d) 0))\<rparr>
             else h)"
      using updateStreak_result [OF Some assms(5)] by blast
    then have "habit_id h = hid" using assms(6) by (auto split: if_splits)
    then show ?thesis using h(2) loop by simp
  qed
qed

subsection \<open>Stores reached from the empty one\<close>

lemma emptyDb_invariants: "streakInv emptyDb \<and> distinctIds emptyDb \<and> uniqueLogs emptyDb"
  by (simp add: emptyDb_def streakInv_def distinctIds_def uniqueLogs_def)

lemma reachable_invariants:
  "streakInv (run ms emptyDb) \<and> distinctIds (run ms emptyDb) \<and> uniqueLogs (run ms emptyDb)"
  using emptyDb_invariants run_invariants [of emptyDb ms] run_uniqueLogs [of emptyDb ms]
  by blast

lemma distinct_by_filter:
  "(\<forall>x \<in> set xs. length (filter (\<lambda>y. f y = f x) xs) \<le> 1) \<Longrightarrow> distinct (map f xs)"
proof (induction xs)
  case Nil
  then show ?case by simp
next
  case (Cons a xs)
  have one: "length (filter (\<lambda>y. f y = f a) (a # xs)) \<le> 1"
    using Cons.prems by simp
  then have none: "filter (\<lambda>y. f y = f a) xs = []"
    by simp
  then have fresh: "f a \<notin> f ` set xs"
    by (auto simp: filter_empty_conv)
  have "\<forall>x \<in> set xs. length (filter (\<lambda>y. f y = f x) xs) \<le> 1"
  proof
    fix x assume x: "x \<in> set xs"
    have "length (filter (\<lambda>y. f y = f x) xs) \<le> length (filter (\<lambda>y. f y = f x) (a # xs))"
      by simp
    then show "length (filter (\<lambda>y. f y = f x) xs) \<le> 1"
      using Cons.prems x by fastforce
  qed
  then have "distinct (map f xs)" by (rule Cons.IH)
  then show ?case using fresh by simp
qed

lemma uniqueLogs_distinct_dates:
  assumes "uniqueLogs d"
  shows "distinct (map log_date (filter (\<lambda>l. habitId l = hid) (habitLogs d)))"
proof (rule distinct_by_filter, rule ballI)
  fix x assume "x \<in> set (filter (\<lambda>l. habitId l = hid) (habitLogs d))"
  have "filter (\<lambda>y. log_date y = log_date x) (filter (\<lambda>l. habitId l = hid) (habitLogs d))
          = logsFor hid (log_date x) d"
    by (auto simp: logsFor_def intro: filter_cong)
  then show "length (filter (\<lambda>y. log_date y = log_date x)
                       (filter (\<lambda>l. habitId l = hid) (habitLogs d))) \<le> 1"
    using uniqueLogs_pair [OF assms, of hid "log_date x"] by simp
qed

text \<open>In a store reached from the empty one by the mutations of habits.ts, a recompute for
  a habit whose logs carry calendar days, none after today, stores the length of the
  unbroken completed run that ends today.\<close>

lemma reachable_streak_is_unbroken_run:
  assumes "inRange today"
    and "\<forall>l \<in> set (habitLogs (run ms emptyDb)). habitId l = hid \<longrightarrow> calendarDay (log_date l)"
    and "\<forall>l \<in> set (habitLogs (run ms emptyDb)). habitId l = hid \<longrightarrow> log_date l \<le> toISODate today"
    and "h' \<in> set (habits (updateStreak today hid (run ms emptyDb)))" and "habit_id h' = hid"
  shows "currentStreak h'
           = streakSpec (filter (\<lambda>l. habitId l = hid) (habitLogs (run ms emptyDb))) today"
proof -
  have "uniqueLogs (run ms emptyDb)" using reachable_invariants by blast
  then have "distinct (map log_date (filter (\<lambda>l. habitId l = hid) (habitLogs (run ms emptyDb))))"
    by (rule uniqueLogs_distinct_dates)
  then show ?thesis
    using assms by (intro updateStreak_counts_unbroken_run) simp_all
qed

text \<open>
  C1 fails on the code when a log is dated after today. The habit is created and logged as
  done for 3 January 2024; later on the same UTC day a client whose local date is already
  4 January logs that day as done. The run of completed days that ends on 3 January has
  length 1, and the recompute stores currentStreak 0.
\<close>

theorem streak_lost_behind_future_log:
  "map currentStreak
     (habits (run [CreateHabit 100 gym,
                   LogHabitCompletion 200 jan3 (logOn ''2024-01-03'' True),
                   LogHabitCompletion 300 jan3 (logOn ''2024-01-04'' True)] emptyDb)) = [0]
   \<and> habitLogs (run [CreateHabit 100 gym,
                   LogHabitCompletion 200 jan3 (logOn ''2024-01-03'' True),
                   LogHabitCompletion 300 jan3 (logOn ''2024-01-04'' True)] emptyDb)
       = [gymLog 1 ''2024-01-03'' True 200, gymLog 2 ''2024-01-04'' True 300]
   \<and> streakSpec [gymLog 1 ''2024-01-03'' True 200, gymLog 2 ''2024-01-04'' True 300] jan3 = 1"
proof -
  have r: "run [CreateHabit 100 gym,
                LogHabitCompletion 200 jan3 (logOn ''2024-01-03'' True),
                LogHabitCompletion 300 jan3 (logOn ''2024-01-04'' True)] emptyDb = futureDb"
    by (simp add: futureDb_def gymDb_def)
  have s: "streakSpec [gymLog 1 ''2024-01-03'' True 200, gymLog 2 ''2024-01-04'' True 300] jan3 = 1"
    by (simp add: streakSpec_def completedOn_def gymLog_def iso_jan3 iso_jan2 numeral_2_eq_2)
  show ?thesis
    unfolding r using s by (simp add: futureDb_eq gymHabit_def)
qed


end
